theory Spec2Isabelle
  imports Complex_Main "HOL-Library.Word"
begin

unbundle bit_operations_syntax

section \<open>Light painter: machine types and configuration constants\<close>

text \<open>
  The sketch runs on an Arduino UNO. \<open>uint8_t\<close>, \<open>uint16_t\<close> and \<open>uint32_t\<close> are
  words of that width; arithmetic on them wraps.
\<close>

type_synonym u8 = "8 word"
type_synonym u16 = "16 word"
type_synonym u32 = "32 word"

definition N_LEDS :: nat where
  "N_LEDS = 144"

definition OVERHEAD :: nat where
  "OVERHEAD = 150"

definition CURRENT_MAX :: nat where
  "CURRENT_MAX = 3500"

section \<open>EEPROM handling\<close>

text \<open>
  The EEPROM is a byte store addressed by position. \<open>EEPROM.update\<close> writes the byte
  unless the cell already holds it, so the cell holds the byte afterwards either way.
\<close>

type_synonym eeprom = "nat \<Rightarrow> u8"

definition EEPROM_update :: "nat \<Rightarrow> u8 \<Rightarrow> eeprom \<Rightarrow> eeprom" where
  "EEPROM_update a v e = (if e a = v then e else e(a := v))"

definition EEPROM_read :: "nat \<Rightarrow> eeprom \<Rightarrow> u8" where
  "EEPROM_read a e = e a"

record settings =
  SetBrightness :: u8
  Speed :: u8
  Delay :: u8

definition default_settings :: settings where
  "default_settings = \<lparr>SetBrightness = 125, Speed = 125, Delay = 0\<rparr>"

definition saveConfig :: "settings \<Rightarrow> eeprom \<Rightarrow> eeprom" where
  "saveConfig s e =
     EEPROM_update 3 (Delay s)
       (EEPROM_update 2 (Speed s)
         (EEPROM_update 1 (SetBrightness s)
           (EEPROM_update 0 66 e)))"

definition loadConfig :: "eeprom \<Rightarrow> settings \<Rightarrow> settings" where
  "loadConfig e s =
     (if EEPROM_read 0 e = 66
      then s\<lparr>SetBrightness := EEPROM_read 1 e,
             Speed := EEPROM_read 2 e,
             Delay := EEPROM_read 3 e\<rparr>
      else s)"

definition saveBrightness :: "settings \<Rightarrow> eeprom \<Rightarrow> eeprom" where
  "saveBrightness s e = EEPROM_update 1 (SetBrightness s) (EEPROM_update 0 66 e)"

section \<open>Brightness scaling of one colour channel\<close>

text \<open>
  \<open>bmpProcess\<close> starts with \<open>b = 1 + *brightness\<close> in a \<open>uint8_t\<close> and copies it to
  the 16-bit \<open>b16\<close>. In the pixel loop a channel byte is \<open>(v * b16) >> 8\<close> when \<open>b\<close> is
  not zero and the byte itself otherwise. The product is formed in 16-bit unsigned
  arithmetic and the shifted value is stored in a \<open>uint8_t\<close>.
\<close>

definition brightness_b :: "u8 \<Rightarrow> u8" where
  "brightness_b s = 1 + s"

definition scale_channel :: "u8 \<Rightarrow> u8 \<Rightarrow> u8" where
  "scale_channel b v =
     (if b \<noteq> 0
      then ucast (drop_bit 8 ((ucast v :: u16) * (ucast b :: u16)))
      else v)"

section \<open>The 16-bit \<open>int\<close> of the AVR\<close>

text \<open>
  On the ATmega328 \<open>int\<close> has 16 bits. The values of \<open>int\<close> variables are modelled as
  integers, and every operation whose result could leave the 16-bit range is written with
  its two's complement wrap-around (which is what avr-gcc produces; the C standard leaves
  signed overflow undefined). Division truncates towards zero as in C.
\<close>

definition i16 :: "int \<Rightarrow> int" where
  "i16 x = signed_take_bit 15 x"

definition c_add :: "int \<Rightarrow> int \<Rightarrow> int" where
  "c_add a b = i16 (a + b)"

definition c_sub :: "int \<Rightarrow> int \<Rightarrow> int" where
  "c_sub a b = i16 (a - b)"

definition c_mul :: "int \<Rightarrow> int \<Rightarrow> int" where
  "c_mul a b = i16 (a * b)"

definition c_div :: "int \<Rightarrow> int \<Rightarrow> int" where
  "c_div a b = i16 (sgn a * sgn b * (\<bar>a\<bar> div \<bar>b\<bar>))"

definition c_neg :: "int \<Rightarrow> int" where
  "c_neg a = i16 (- a)"

section \<open>SD card, buffer and globals\<close>

text \<open>
  \<open>sdBuf\<close> is the 512-byte buffer shared by SD transfers and LED data; it is modelled as
  a function from the byte position, of which positions below 512 are the array. A block
  of the card is a buffer image. A file offers its bytes to \<open>read\<close>, and, when it is
  contiguous, the number of its first block. A directory entry has what the scans ask of
  it. The card's behaviour that the sketch cannot see into is a parameter of the card:
  where \<open>createContiguous\<close> places a file (or that it fails), whether \<open>writeBlock\<close>
  succeeds, and what \<open>micros()\<close> returns before and after the read of a block.
\<close>

type_synonym buffer = "nat \<Rightarrow> u8"

record dirent =
  d_name :: string
  d_isSubDir :: bool
  d_isHidden :: bool
  d_dirIndex :: u16

record sdfile =
  f_data :: "u8 list"
  f_first :: "u32 option"
  f_size :: u32

record sdcard =
  sd_dir :: "dirent list"
  sd_files :: "string \<Rightarrow> sdfile option"
  sd_blocks :: "u32 \<Rightarrow> buffer"
  sd_alloc :: "string \<Rightarrow> u32 \<Rightarrow> u32 option"
  sd_write_ok :: "u32 \<Rightarrow> bool"
  sd_micros :: "u32 \<Rightarrow> u32 \<times> u32"

text \<open>
  The tables of \<open>gamma.h\<close> (\<open>gamma\<close>, \<open>bump\<close> and the 16 by 16 \<open>dither\<close> matrix) are
  not part of the sources at hand; they are parameters.
\<close>

record tables =
  t_gamma :: "u8 \<Rightarrow> u8"
  t_bump :: "u8 \<Rightarrow> u8"
  t_dither :: "nat \<Rightarrow> nat \<Rightarrow> u8"

record machine =
  sdBuf :: buffer
  fileIndex :: "u8 list"
  nFrames :: u8
  maxLPS :: u16
  firstBlock :: u32
  nBlocks :: u32
  card :: sdcard

text \<open>
  \<open>error()\<close> shows two lines on the LCD and hangs. A run that reaches it ends in the
  state it had then, with the error that names the call. \<open>TableStorePastEnd\<close>,
  \<open>TableReadPastEnd\<close>, \<open>BufferOverrun\<close> and \<open>NullPointer\<close> are not calls of
  \<open>error()\<close>: they mark the point where the program stores or reads outside the object
  it indexes, after which C defines no behaviour; the model stops there and records the
  position.
\<close>

datatype error =
    CantOpenFile
  | FormatError
  | CreateError
  | ReadError
  | WriteError
  | RawFileError
  | CantOpenRaw
  | TableStorePastEnd nat
  | TableReadPastEnd nat
  | BufferOverrun
  | NullPointer

type_synonym 'a outcome = "(error \<times> machine) + 'a"


definition store :: "buffer \<Rightarrow> nat \<Rightarrow> u8 list \<Rightarrow> buffer" where
  "store buf off bytes =
     (\<lambda>i. if off \<le> i \<and> i < off + length bytes then bytes ! (i - off) else buf i)"

definition memset0 :: "buffer \<Rightarrow> nat \<Rightarrow> buffer" where
  "memset0 buf n = (\<lambda>i. if i < n then 0 else buf i)"

definition le16 :: "buffer \<Rightarrow> nat \<Rightarrow> u16" where
  "le16 buf i = ucast (buf i) + 256 * ucast (buf (i + 1))"

definition le32 :: "buffer \<Rightarrow> nat \<Rightarrow> u32" where
  "le32 buf i = ucast (buf i) + 256 * ucast (buf (i + 1)) + 65536 * ucast (buf (i + 2))
                 + 16777216 * ucast (buf (i + 3))"

definition file_read :: "u8 list \<Rightarrow> nat \<Rightarrow> nat \<Rightarrow> u8 list" where
  "file_read fdata pos n = take n (drop pos fdata)"

definition seekSet :: "u8 list \<Rightarrow> nat \<Rightarrow> u32 \<Rightarrow> nat" where
  "seekSet fdata cur p = (if unat p \<le> length fdata then unat p else cur)"

definition sd_remove :: "string \<Rightarrow> sdcard \<Rightarrow> sdcard" where
  "sd_remove name c = c\<lparr>sd_files := (sd_files c)(name := None)\<rparr>"

definition createContiguous :: "string \<Rightarrow> u32 \<Rightarrow> sdcard \<Rightarrow> (u32 \<times> sdcard) option" where
  "createContiguous name sz c =
     (case sd_alloc c name sz of
        None \<Rightarrow> None
      | Some fb \<Rightarrow>
          Some (fb, c\<lparr>sd_files := (sd_files c)(name \<mapsto> \<lparr>f_data = [], f_first = Some fb, f_size = sz\<rparr>)\<rparr>))"

definition writeBlock :: "u32 \<Rightarrow> buffer \<Rightarrow> sdcard \<Rightarrow> sdcard option" where
  "writeBlock k buf c =
     (if sd_write_ok c k then Some (c\<lparr>sd_blocks := (sd_blocks c)(k := buf)\<rparr>) else None)"

section \<open>BMP to raw conversion\<close>

definition NEO_RED :: nat where "NEO_RED = 0"
definition NEO_GREEN :: nat where "NEO_GREEN = 1"
definition NEO_BLUE :: nat where "NEO_BLUE = 2"
definition BMP_BLUE :: nat where "BMP_BLUE = 0"
definition BMP_GREEN :: nat where "BMP_GREEN = 1"
definition BMP_RED :: nat where "BMP_RED = 2"

text \<open>The header test of \<open>bmpProcess\<close>, on the buffer the first 34 bytes were read into.\<close>

definition header_ok :: "buffer \<Rightarrow> bool" where
  "header_ok buf \<longleftrightarrow>
     le16 buf 0 = 0x4D42 \<and> le16 buf 26 = 1 \<and> le16 buf 28 = 24 \<and> le32 buf 30 = 0"

text \<open>
  The three bytes at \<open>ledPtr\<close> are scaled into \<open>pixel[]\<close> in the strip's component
  order; both branches of \<open>if(b)\<close> are in \<open>scale_channel\<close>.
\<close>

definition load_pixel :: "u8 \<Rightarrow> buffer \<Rightarrow> nat \<Rightarrow> nat \<Rightarrow> u8" where
  "load_pixel b buf p =
     (\<lambda>c. 0)(NEO_BLUE := scale_channel b (buf (p + BMP_BLUE)),
             NEO_GREEN := scale_channel b (buf (p + BMP_GREEN)),
             NEO_RED := scale_channel b (buf (p + BMP_RED)))"

definition correct :: "tables \<Rightarrow> u8 \<Rightarrow> u8 \<Rightarrow> u8" where
  "correct T d raw =
     (let corr = t_gamma T raw in if t_bump T raw > d then corr + 1 else corr)"

text \<open>One pass of the column loop: the colour loop is unrolled for \<open>color\<close> 0, 1, 2.\<close>

definition process_pixel ::
    "tables \<Rightarrow> u8 \<Rightarrow> nat \<Rightarrow> nat \<Rightarrow> nat \<Rightarrow> buffer \<times> u32 \<Rightarrow> buffer \<times> u32" where
  "process_pixel T b row column p s =
     (let buf = fst s; sum = snd s;
          pixel = load_pixel b buf p;
          d = t_dither T (row mod 16) (column mod 16);
          c0 = correct T d (pixel 0);
          c1 = correct T d (pixel 1);
          c2 = correct T d (pixel 2)
      in (buf(p := c0, p + 1 := c1, p + 2 := c2),
          sum + ucast c0 + ucast c1 + ucast c2))"

fun col_loop ::
    "tables \<Rightarrow> u8 \<Rightarrow> nat \<Rightarrow> nat \<Rightarrow> nat \<Rightarrow> nat \<Rightarrow> buffer \<times> u32 \<Rightarrow> buffer \<times> u32" where
  "col_loop T b row 0 column p s = s"
| "col_loop T b row (Suc n) column p s =
     col_loop T b row n (Suc column) (p + 3) (process_pixel T b row column p s)"

text \<open>What the row loop reads but does not change.\<close>

record bmp_ctx =
  bc_data :: "u8 list"
  bc_out :: bool
  bc_b :: u8
  bc_offset :: u32
  bc_startCol :: int
  bc_rowSize :: u32
  bc_flip :: bool
  bc_height :: int
  bc_ledStart :: int
  bc_columns :: int

definition seek_target :: "bmp_ctx \<Rightarrow> nat \<Rightarrow> u32" where
  "seek_target c row =
     bc_offset c + word_of_int (c_mul (bc_startCol c) 3)
       + bc_rowSize c *
           word_of_int (if bc_flip c then c_sub (c_sub (bc_height c) 1) (int row) else int row)"

text \<open>
  One pass of the row loop. Its state is the machine, the position of \<open>inFile\<close> and
  \<open>lineMax\<close>. \<open>seekSet\<close> leaves the position where it was when the target is past the
  end of the file (its result is not looked at); \<open>read\<close> yields the bytes there are, at
  most \<open>columns * 3\<close> taken as a 16-bit \<open>size_t\<close>, and the loop stops with the read
  error when there are none.
\<close>

definition row_step ::
    "tables \<Rightarrow> bmp_ctx \<Rightarrow> nat \<Rightarrow> machine \<times> nat \<times> u32 \<Rightarrow> (machine \<times> nat \<times> u32) outcome" where
  "row_step T c row s =
     (let m = fst s; cur = fst (snd s); lineMax = snd (snd s);
          cur1 = seekSet (bc_data c) cur (seek_target c row);
          n = nat (c_mul (bc_columns c) 3 mod 65536);
          bytes = file_read (bc_data c) cur1 n
      in if bytes = [] then Inl (ReadError, m)
         else if bc_ledStart c < 0 \<or> 512 < nat (bc_ledStart c) + length bytes
         then Inl (BufferOverrun, m)
         else
           (let buf1 = store (sdBuf m) (nat (bc_ledStart c)) bytes;
                r = col_loop T (bc_b c) row (nat (bc_columns c)) 0 (nat (bc_ledStart c)) (buf1, 0);
                m2 = m\<lparr>sdBuf := fst r\<rparr>;
                lineMax2 = (if snd r > lineMax then snd r else lineMax)
            in if bc_out c
               then (case writeBlock (firstBlock m + word_of_nat row) (fst r) (card m) of
                       None \<Rightarrow> Inl (WriteError, m2)
                     | Some c' \<Rightarrow> Inr (m2\<lparr>card := c'\<rparr>, cur1 + length bytes, lineMax2))
               else Inr (m2, cur1 + length bytes, lineMax2)))"

fun row_loop ::
    "tables \<Rightarrow> bmp_ctx \<Rightarrow> nat \<Rightarrow> nat \<Rightarrow> machine \<times> nat \<times> u32 \<Rightarrow> (machine \<times> nat \<times> u32) outcome" where
  "row_loop T c 0 row s = Inr s"
| "row_loop T c (Suc n) row s =
     (case row_step T c row s of
        Inl e \<Rightarrow> Inl e
      | Inr s' \<Rightarrow> row_loop T c n (Suc row) s')"

text \<open>
  \<open>CORRECTION_FACTOR\<close> is the floating-point constant 1.4. The division of \<open>lineMax\<close>
  by it is modelled on the rationals, with the conversion back to \<open>uint32_t\<close> as the
  floor; the rounding of the AVR's single-precision arithmetic is not modelled.
\<close>

definition CORRECTION_FACTOR :: rat where
  "CORRECTION_FACTOR = 14 / 10"

definition estimate_current :: "u32 \<Rightarrow> u32" where
  "estimate_current lineMax =
     (let l1 = (lineMax * 20) div 255
      in word_of_int \<lfloor>of_nat (unat l1) / CORRECTION_FACTOR\<rfloor>)"

definition suggest_brightness :: "u8 \<Rightarrow> u32 \<Rightarrow> u8" where
  "suggest_brightness s est =
     (if est > word_of_nat CURRENT_MAX
      then ucast ((ucast s * word_of_nat CURRENT_MAX) div est)
      else s)"

text \<open>
  Crop or centre: the first BMP column to load, the position in \<open>sdBuf\<close> that
  \<open>ledStartPtr\<close> points to, and the number of columns to load.
\<close>

definition crop_geometry :: "int \<Rightarrow> int \<times> int \<times> int" where
  "crop_geometry bmpWidth =
     (if bmpWidth \<ge> int N_LEDS
      then (c_div (c_sub bmpWidth (int N_LEDS)) 2, 0, int N_LEDS)
      else (0, c_mul (c_div (c_sub (int N_LEDS) bmpWidth) 2) 3, bmpWidth))"

definition row_size :: "int \<Rightarrow> u32" where
  "row_size bmpWidth = word_of_int (c_add (c_mul bmpWidth 3) 3 AND (- 4))"

text \<open>
  With an output name: the old file of that name is removed and a contiguous file of
  \<open>512L * bmpHeight\<close> bytes is created, \<open>bmpHeight\<close> still carrying its sign.
\<close>

definition open_output :: "string option \<Rightarrow> int \<Rightarrow> machine \<Rightarrow> machine outcome" where
  "open_output outName bmpHeight m =
     (case outName of
        None \<Rightarrow> Inr m
      | Some out \<Rightarrow>
          (let c1 = sd_remove out (card m)
           in case createContiguous out (word_of_int (512 * bmpHeight)) c1 of
                None \<Rightarrow> Inl (CreateError, m\<lparr>card := c1\<rparr>)
              | Some (fb, c2) \<Rightarrow>
                  Inr (m\<lparr>card := c2, firstBlock := fb, nBlocks := word_of_int bmpHeight\<rparr>)))"

definition bmp_context ::
    "u8 list \<Rightarrow> string option \<Rightarrow> u8 option \<Rightarrow> buffer \<Rightarrow> bmp_ctx" where
  "bmp_context fdata outName brightness buf =
     (let bmpWidth = i16 (uint (le32 buf 18));
          bmpHeight = i16 (uint (le32 buf 22));
          g = crop_geometry bmpWidth
      in \<lparr>bc_data = fdata,
          bc_out = (outName \<noteq> None),
          bc_b = (case brightness of Some s \<Rightarrow> brightness_b s | None \<Rightarrow> 0),
          bc_offset = le32 buf 10,
          bc_startCol = fst g,
          bc_rowSize = row_size bmpWidth,
          bc_flip = (bmpHeight < 0),
          bc_height = (if bmpHeight < 0 then c_neg bmpHeight else bmpHeight),
          bc_ledStart = fst (snd g),
          bc_columns = snd (snd g)\<rparr>)"

text \<open>
  \<open>bmpProcess(inName, outName, brightness)\<close>. A null \<open>outName\<close> or \<open>brightness\<close> is
  \<open>None\<close>. The result is the byte \<open>*brightness\<close> holds on return, and the machine.
\<close>

definition bmpProcess ::
    "tables \<Rightarrow> string \<Rightarrow> string option \<Rightarrow> u8 option \<Rightarrow> machine
      \<Rightarrow> (u8 option \<times> machine) outcome" where
  "bmpProcess T inName outName brightness m =
     (if brightness = None \<and> outName = None then Inr (brightness, m)
      else
        case sd_files (card m) inName of
          None \<Rightarrow> Inl (CantOpenFile, m)
        | Some f \<Rightarrow>
            (let hdr = file_read (f_data f) 0 34;
                 m1 = m\<lparr>sdBuf := store (sdBuf m) 0 hdr\<rparr>
             in if hdr \<noteq> [] \<and> header_ok (sdBuf m1)
                then
                  (let c = bmp_context (f_data f) outName brightness (sdBuf m1)
                   in case open_output outName (i16 (uint (le32 (sdBuf m1) 22))) m1 of
                        Inl e \<Rightarrow> Inl e
                      | Inr m2 \<Rightarrow>
                          (let m3 = (if i16 (uint (le32 (sdBuf m1) 18)) \<ge> int N_LEDS then m2
                                     else m2\<lparr>sdBuf := memset0 (sdBuf m2) (N_LEDS * 3)\<rparr>)
                           in case row_loop T c (nat (bc_height c)) 0 (m3, length hdr, 0) of
                                Inl e \<Rightarrow> Inl e
                              | Inr s \<Rightarrow>
                                  (case brightness of
                                     None \<Rightarrow> Inr (None, fst s)
                                   | Some v \<Rightarrow>
                                       Inr (Some (suggest_brightness v
                                                    (estimate_current (snd (snd s)))),
                                            fst s))))
                else Inl (FormatError, m1)))"

section \<open>SD scanning\<close>

definition FILE_INDEX_SIZE :: nat where
  "FILE_INDEX_SIZE = 30"

text \<open>\<open>strstr\<close>: the position of the first occurrence, \<open>None\<close> for the null pointer.\<close>

fun strstr :: "string \<Rightarrow> string \<Rightarrow> nat option" where
  "strstr [] pat = (if pat = [] then Some 0 else None)"
| "strstr (c # cs) pat =
     (if take (length pat) (c # cs) = pat then Some 0
      else map_option Suc (strstr cs pat))"





text \<open>
  \<open>getFileName\<close>: the entry is opened by the index stored in the table and its name is
  copied; when no entry has that index the name buffer keeps what it held (\<open>old\<close>).
  For \<open>ext\<close> 1 the name is cut at the first "bmp" and "raw" is put there, for \<open>ext\<close> 2
  it is cut at the first ".bmp".
\<close>

definition open_index :: "sdcard \<Rightarrow> u8 \<Rightarrow> dirent option" where
  "open_index c idx = find (\<lambda>e. d_dirIndex e = ucast idx) (sd_dir c)"

definition getFileName :: "machine \<Rightarrow> string \<Rightarrow> u8 \<Rightarrow> u8 \<Rightarrow> string outcome" where
  "getFileName m old index ext =
     (if FILE_INDEX_SIZE \<le> unat index then Inl (TableReadPastEnd (unat index), m)
      else
        (let name = (case open_index (card m) (fileIndex m ! unat index) of
                       None \<Rightarrow> old
                     | Some e \<Rightarrow> d_name e)
         in if ext = 1
            then (case strstr name ''bmp'' of
                    None \<Rightarrow> Inl (NullPointer, m)
                  | Some p \<Rightarrow> Inr (take p name @ ''raw''))
            else if ext = 2
            then (case strstr name ''.bmp'' of
                    None \<Rightarrow> Inl (NullPointer, m)
                  | Some p \<Rightarrow> Inr (take p name))
            else Inr name))"




section \<open>Speed check\<close>

text \<open>
  \<open>benchmark(block, n)\<close>: a do-while loop that runs until the pre-decremented \<open>n\<close> is
  zero, so \<open>n = 0\<close> on entry means \<open>2^32\<close> passes. \<open>micros()\<close> is read before and after
  each \<open>readBlock\<close> and the difference is taken in \<open>uint32_t\<close>. The buffer holds the last
  block read.
\<close>

definition read_latency :: "sdcard \<Rightarrow> u32 \<Rightarrow> u32" where
  "read_latency c block = snd (sd_micros c block) - fst (sd_micros c block)"

lemma unat_pred_less: "(w :: u32) \<noteq> 0 \<Longrightarrow> unat (w - 1) < unat w"
  by (simp add: unat_minus_one unat_gt_0)

function benchmark_loop :: "sdcard \<Rightarrow> u32 \<Rightarrow> u32 \<Rightarrow> u32 \<Rightarrow> u32 \<times> buffer" where
  "benchmark_loop c block n maxTime =
     (let t = read_latency c block;
          maxTime1 = (if t > maxTime then t else maxTime);
          n1 = n - 1
      in if n1 \<noteq> 0 then benchmark_loop c (block + 1) n1 maxTime1
         else (maxTime1, sd_blocks c block))"
  by pat_completeness auto
termination
proof (relation "measure (\<lambda>(c, block, n, maxTime). unat (n - 1))")
  fix c :: sdcard and block n maxTime t maxTime1 n1 :: u32
  assume "n1 = n - 1" and "n1 \<noteq> 0"
  then show "((c, block + 1, n1, maxTime1), c, block, n, maxTime)
               \<in> measure (\<lambda>(c, block, n, maxTime). unat (n - 1))"
    using unat_pred_less [of n1] by simp
qed simp

definition benchmark :: "sdcard \<Rightarrow> u32 \<Rightarrow> u32 \<Rightarrow> u32 \<times> buffer" where
  "benchmark c block n = benchmark_loop c block n 0"

definition frame_rate :: "u32 \<Rightarrow> u16" where
  "frame_rate t =
     ucast ((1000000 :: u32) div ((t * 21) div 20 + word_of_nat (N_LEDS * 30) + word_of_nat OVERHEAD))"

text \<open>
  \<open>checkSpeed\<close>: \<open>outfile\<close> is passed to \<open>getFileName\<close> unassigned; \<open>uout\<close> is what it
  holds then.
\<close>

fun checkSpeed_loop :: "nat \<Rightarrow> u8 \<Rightarrow> string \<Rightarrow> machine \<Rightarrow> machine outcome" where
  "checkSpeed_loop 0 i outfile m = Inr m"
| "checkSpeed_loop (Suc k) i outfile m =
     (case getFileName m outfile i 1 of
        Inl x \<Rightarrow> Inl x
      | Inr name \<Rightarrow>
          (case sd_files (card m) name of
             None \<Rightarrow> Inl (CantOpenRaw, m)
           | Some f \<Rightarrow>
               (case f_first f of
                  None \<Rightarrow> Inl (RawFileError, m)
                | Some fb \<Rightarrow>
                    (let m1 = m\<lparr>firstBlock := fb, nBlocks := f_size f div 512\<rparr>;
                         r = benchmark (card m1) (firstBlock m1) (nBlocks m1);
                         n = frame_rate (fst r);
                         m2 = m1\<lparr>sdBuf := snd r,
                                 maxLPS := (if n > maxLPS m1 then n else maxLPS m1)\<rparr>
                     in checkSpeed_loop k (i + 1) name m2))))"

definition checkSpeed :: "string \<Rightarrow> machine \<Rightarrow> machine outcome" where
  "checkSpeed uout m = checkSpeed_loop (unat (nFrames m)) 0 uout m"

text \<open>
  The speed-check step of \<open>setup()\<close> and of the brightness menu:
  \<open>checkSpeed(); if(maxLPS > 400) maxLPS = 400;\<close>
\<close>

definition speedCheck :: "string \<Rightarrow> machine \<Rightarrow> machine outcome" where
  "speedCheck uout m =
     (case checkSpeed uout m of
        Inl x \<Rightarrow> Inl x
      | Inr m1 \<Rightarrow> Inr (if maxLPS m1 > 400 then m1\<lparr>maxLPS := 400\<rparr> else m1))"

section \<open>The rate a Frame allows, in the words of the specification\<close>

text \<open>
  The Frame of index \<open>i\<close> is the file named after the \<open>i\<close>-th indexed source with "raw"
  for "bmp". Its worst latency is the largest of the latencies of its blocks, read one
  after the other from the first; the rate it allows adds the 5 percent margin, 30
  microseconds for each LED and the loop overhead, and inverts to rows per second. A
  Frame can be measured when its file opens, is contiguous and has at least one block,
  and the margin fits 32 bits.
\<close>

definition frame_raw :: "machine \<Rightarrow> nat \<Rightarrow> sdfile option" where
  "frame_raw m i =
     (if i < FILE_INDEX_SIZE
      then (case open_index (card m) (fileIndex m ! i) of
              None \<Rightarrow> None
            | Some e \<Rightarrow>
                (case strstr (d_name e) ''bmp'' of
                   None \<Rightarrow> None
                 | Some p \<Rightarrow> sd_files (card m) (take p (d_name e) @ ''raw'')))
      else None)"

definition worst_latency :: "sdcard \<Rightarrow> u32 \<Rightarrow> nat \<Rightarrow> nat" where
  "worst_latency c fb n = Max ((\<lambda>k. unat (read_latency c (fb + word_of_nat k))) ` {..<n})"

definition rate_of_latency :: "nat \<Rightarrow> nat" where
  "rate_of_latency worst = 1000000 div (worst * 21 div 20 + 30 * N_LEDS + OVERHEAD)"

definition measured_rate :: "machine \<Rightarrow> nat \<Rightarrow> nat" where
  "measured_rate m i =
     (case frame_raw m i of
        None \<Rightarrow> 0
      | Some f \<Rightarrow>
          (case f_first f of
             None \<Rightarrow> 0
           | Some fb \<Rightarrow> rate_of_latency (worst_latency (card m) fb (unat (f_size f div 512)))))"

definition frame_measurable :: "machine \<Rightarrow> nat \<Rightarrow> bool" where
  "frame_measurable m i =
     (case frame_raw m i of
        None \<Rightarrow> False
      | Some f \<Rightarrow>
          (case f_first f of
             None \<Rightarrow> False
           | Some fb \<Rightarrow>
               f_size f div 512 \<noteq> 0 \<and>
               worst_latency (card m) fb (unat (f_size f div 512)) * 21 < 2 ^ 32))"

section \<open>The Frame of a bitmap, in the words of the specification\<close>

text \<open>
  The header fields of a BMP file, little-endian, as numbers; width and height as the
  16-bit \<open>int\<close> they are stored in.
\<close>

definition bmp_u16 :: "u8 list \<Rightarrow> nat \<Rightarrow> nat" where
  "bmp_u16 d i = unat (d ! i) + 256 * unat (d ! (i + 1))"

definition bmp_u32 :: "u8 list \<Rightarrow> nat \<Rightarrow> nat" where
  "bmp_u32 d i = unat (d ! i) + 256 * unat (d ! (i + 1)) + 65536 * unat (d ! (i + 2))
                   + 16777216 * unat (d ! (i + 3))"

definition supported_header :: "u8 list \<Rightarrow> bool" where
  "supported_header d \<longleftrightarrow>
     bmp_u16 d 0 = 0x4D42 \<and> bmp_u16 d 26 = 1 \<and> bmp_u16 d 28 = 24 \<and> bmp_u32 d 30 = 0"

definition bmp_offset :: "u8 list \<Rightarrow> nat" where
  "bmp_offset d = bmp_u32 d 10"

definition bmp_width :: "u8 list \<Rightarrow> int" where
  "bmp_width d = i16 (int (bmp_u32 d 18))"

definition bmp_height :: "u8 list \<Rightarrow> int" where
  "bmp_height d = i16 (int (bmp_u32 d 22))"

definition bmp_rows :: "u8 list \<Rightarrow> nat" where
  "bmp_rows d = nat \<bar>bmp_height d\<bar>"

definition bmp_stride :: "u8 list \<Rightarrow> nat" where
  "bmp_stride d = (nat (bmp_width d) * 3 + 3) div 4 * 4"

text \<open>
  The rows of the pixel array in the order the file stores them, and the rows of the
  image counted from its bottom: a positive height stores the bottom row first, a
  negative height the top row first.
\<close>

definition stored_row :: "u8 list \<Rightarrow> nat \<Rightarrow> u8 list" where
  "stored_row d j = take (nat (bmp_width d) * 3) (drop (bmp_offset d + bmp_stride d * j) d)"

definition row_from_bottom :: "u8 list \<Rightarrow> nat \<Rightarrow> u8 list" where
  "row_from_bottom d k =
     (if bmp_height d < 0 then stored_row d (bmp_rows d - 1 - k) else stored_row d k)"

text \<open>
  The pixel pipeline on a row of BGR triples: scale, reorder to the strip's order, gamma,
  dither up; the dither column counts from the first pixel given.
\<close>

fun led_pixels :: "tables \<Rightarrow> u8 \<Rightarrow> nat \<Rightarrow> nat \<Rightarrow> u8 list \<Rightarrow> u8 list" where
  "led_pixels T b row col (x0 # x1 # x2 # rest) =
     (let d = t_dither T (row mod 16) (col mod 16)
      in correct T d (scale_channel b x2) # correct T d (scale_channel b x1)
           # correct T d (scale_channel b x0) # led_pixels T b row (Suc col) rest)"
| "led_pixels T b row col rest = []"

text \<open>
  Columns of a source row of \<open>w\<close> pixels on a strip of \<open>N_LEDS\<close>: the first column
  kept, the byte of the strip row the first kept pixel goes to, and the number of
  columns kept.
\<close>

definition first_column :: "nat \<Rightarrow> nat" where
  "first_column w = (if N_LEDS \<le> w then (w - N_LEDS) div 2 else 0)"

definition led_start :: "nat \<Rightarrow> nat" where
  "led_start w = (if N_LEDS \<le> w then 0 else 3 * ((N_LEDS - w) div 2))"

definition kept_columns :: "nat \<Rightarrow> nat" where
  "kept_columns w = min w N_LEDS"

definition strip_source :: "nat \<Rightarrow> u8 list \<Rightarrow> u8 list" where
  "strip_source w src = take (3 * kept_columns w) (drop (3 * first_column w) src)"

text \<open>
  The LED bytes of a strip row from a source row of \<open>w\<close> pixels: a wide row loses
  \<open>\<lfloor>(w - N) / 2\<rfloor>\<close> columns on the left and the rest of the surplus on the right; a
  narrow row is put after \<open>\<lfloor>(N - w) / 2\<rfloor>\<close> dark columns and followed by dark columns to
  the end of the strip.
\<close>

definition strip_leds :: "tables \<Rightarrow> u8 \<Rightarrow> nat \<Rightarrow> nat \<Rightarrow> u8 list \<Rightarrow> u8 list" where
  "strip_leds T b row w src =
     (if N_LEDS \<le> w
      then led_pixels T b row 0 (take (3 * N_LEDS) (drop (3 * ((w - N_LEDS) div 2)) src))
      else replicate (3 * ((N_LEDS - w) div 2)) 0 @ led_pixels T b row 0 src
             @ replicate (3 * (N_LEDS - w - (N_LEDS - w) div 2)) 0)"

definition row_sum :: "u8 list \<Rightarrow> nat" where
  "row_sum leds = sum_list (map unat leds)"

text \<open>
  A bitmap the conversion can run on: the header is there and supported, the width is
  positive and its row size fits the 16-bit \<open>int\<close>, the height is not the one 16-bit
  value without a negative, and the file, no longer than a FAT file can be, holds all
  the rows of the pixel array.
\<close>

definition convertible :: "u8 list \<Rightarrow> bool" where
  "convertible d \<longleftrightarrow>
     34 \<le> length d \<and> supported_header d \<and>
     0 < bmp_width d \<and> bmp_width d \<le> 10921 \<and> - 32768 < bmp_height d \<and>
     bmp_offset d + bmp_stride d * bmp_rows d \<le> length d \<and> length d < 2 ^ 32"

text \<open>
  The position of the image's \<open>k\<close>-th row from the bottom among the stored rows, the
  LED bytes computed from the kept columns of that row, the bytes \<open>show()\<close> sends from a
  buffer, the buffer as the row loop finds it (the header bytes at its start, and the
  strip cleared for a narrow image), and the values \<open>bmpProcess\<close> derives from the
  header of a convertible bitmap.
\<close>

definition stored_index :: "u8 list \<Rightarrow> nat \<Rightarrow> nat" where
  "stored_index d k = (if bmp_height d < 0 then bmp_rows d - 1 - k else k)"

definition row_leds :: "tables \<Rightarrow> u8 \<Rightarrow> u8 list \<Rightarrow> nat \<Rightarrow> u8 list" where
  "row_leds T b d k = led_pixels T b k 0 (strip_source (nat (bmp_width d)) (row_from_bottom d k))"

definition shown :: "buffer \<Rightarrow> u8 list" where
  "shown buf = map buf [0..<N_LEDS * 3]"

definition start_buffer :: "buffer \<Rightarrow> u8 list \<Rightarrow> buffer" where
  "start_buffer buf d =
     (if N_LEDS \<le> nat (bmp_width d) then store buf 0 (file_read d 0 34)
      else memset0 (store buf 0 (file_read d 0 34)) (N_LEDS * 3))"

definition conversion_context :: "u8 list \<Rightarrow> bool \<Rightarrow> u8 \<Rightarrow> bmp_ctx" where
  "conversion_context d out b =
    \<lparr>bc_data = d, bc_out = out, bc_b = b,
     bc_offset = word_of_nat (bmp_offset d),
     bc_startCol = int (first_column (nat (bmp_width d))),
     bc_rowSize = word_of_nat (bmp_stride d),
     bc_flip = (bmp_height d < 0),
     bc_height = int (bmp_rows d),
     bc_ledStart = int (led_start (nat (bmp_width d))),
     bc_columns = int (kept_columns (nat (bmp_width d)))\<rparr>"

text \<open>
  The current estimate and the brightness suggestion as the specification words them,
  on numbers: the brightest row's sum times 20 mA per 255 steps, divided by the
  correction factor, each division cut to a whole number as the program's integer types
  do; and the brightness scaled by budget over estimate when the estimate exceeds the
  budget.
\<close>

definition max_row_sum :: "tables \<Rightarrow> u8 \<Rightarrow> u8 list \<Rightarrow> nat" where
  "max_row_sum T b d =
     Max (insert 0 ((\<lambda>k. row_sum (strip_leds T b k (nat (bmp_width d)) (row_from_bottom d k)))
                      ` {..<bmp_rows d}))"

definition estimated_current :: "nat \<Rightarrow> nat" where
  "estimated_current maxRowSum = nat \<lfloor>of_nat (maxRowSum * 20 div 255) / CORRECTION_FACTOR\<rfloor>"

definition suggested_brightness :: "nat \<Rightarrow> nat \<Rightarrow> nat" where
  "suggested_brightness brightness est =
     (if CURRENT_MAX < est then brightness * CURRENT_MAX div est else brightness)"

section \<open>Running a scan twice, and example cards\<close>



text \<open>
  A card with nothing on it, the machine as it is after reset (all globals zero), and a
  visible file \<open>name\<close> at directory index \<open>k\<close>.
\<close>

definition blank_card :: sdcard where
  "blank_card =
     \<lparr>sd_dir = [], sd_files = (\<lambda>n. None), sd_blocks = (\<lambda>k i. 0),
      sd_alloc = (\<lambda>n s. None), sd_write_ok = (\<lambda>k. True), sd_micros = (\<lambda>k. (0, 0))\<rparr>"

definition boot_machine :: "sdcard \<Rightarrow> machine" where
  "boot_machine c =
     \<lparr>sdBuf = (\<lambda>i. 0), fileIndex = replicate 30 0, nFrames = 0, maxLPS = 0,
      firstBlock = 0, nBlocks = 0, card = c\<rparr>"

definition file_entry :: "string \<Rightarrow> nat \<Rightarrow> dirent" where
  "file_entry name k =
     \<lparr>d_name = name, d_isSubDir = False, d_isHidden = False, d_dirIndex = word_of_nat k\<rparr>"



text \<open>
  Two indexed sources, \<open>a.bmp\<close> and \<open>b.bmp\<close>, with one-block Frames \<open>a.raw\<close> at block
  100 and \<open>b.raw\<close> at block 200; block 200 takes 10000 microseconds to read, every
  other block none.
\<close>

definition two_frame_card :: sdcard where
  "two_frame_card =
     blank_card
       \<lparr>sd_dir := [file_entry ''a.bmp'' 5, file_entry ''b.bmp'' 6],
        sd_files := (\<lambda>n. if n = ''a.raw'' then Some \<lparr>f_data = [], f_first = Some 100, f_size = 512\<rparr>
                         else if n = ''b.raw'' then Some \<lparr>f_data = [], f_first = Some 200, f_size = 512\<rparr>
                         else None),
        sd_micros := (\<lambda>k. if k = 200 then (0, 10000) else (0, 0))\<rparr>"

definition two_frame_machine :: machine where
  "two_frame_machine =
     (boot_machine two_frame_card)\<lparr>fileIndex := [5, 6] @ replicate 28 0, nFrames := 2\<rparr>"

text \<open>
  Bitmaps: a 2 by 2 image stored top-down (height -2) whose stored rows are the pixels
  (1,2,3) (4,5,6) and (11,12,13) (14,15,16); the 150 by 100 image of the specification's
  scenario, every byte of its pixel array 9; and a file that is not a bitmap. A card
  holds one of them as \<open>a.bmp\<close> and places a contiguous file at block 100. The tables
  here are the identity for gamma and no dithering.
\<close>

definition small_top_down :: "u8 list" where
  "small_top_down =
     [0x42, 0x4D, 0, 0, 0, 0, 0, 0, 0, 0, 54, 0, 0, 0, 40, 0, 0, 0,
      2, 0, 0, 0, 0xFE, 0xFF, 0xFF, 0xFF, 1, 0, 24, 0, 0, 0, 0, 0,
      0, 0, 0, 0, 0, 0, 0, 0, 0, 0, 0, 0, 0, 0, 0, 0, 0, 0, 0, 0]
     @ [1, 2, 3, 4, 5, 6, 0, 0, 11, 12, 13, 14, 15, 16, 0, 0]"

definition scenario_image :: "u8 list" where
  "scenario_image =
     [0x42, 0x4D, 0, 0, 0, 0, 0, 0, 0, 0, 54, 0, 0, 0, 40, 0, 0, 0,
      150, 0, 0, 0, 100, 0, 0, 0, 1, 0, 24, 0, 0, 0, 0, 0,
      0, 0, 0, 0, 0, 0, 0, 0, 0, 0, 0, 0, 0, 0, 0, 0, 0, 0, 0, 0]
     @ replicate 45200 9"


definition plain_tables :: tables where
  "plain_tables = \<lparr>t_gamma = (\<lambda>x. x), t_bump = (\<lambda>x. 0), t_dither = (\<lambda>r c. 0)\<rparr>"

definition image_card :: "u8 list \<Rightarrow> sdcard" where
  "image_card d =
     blank_card
       \<lparr>sd_files := (\<lambda>n. if n = ''a.bmp'' then Some \<lparr>f_data = d, f_first = None, f_size = 0\<rparr>
                         else None),
        sd_alloc := (\<lambda>n sz. Some 100)\<rparr>"

section \<open>Settings survive a save and a load\<close>

lemma EEPROM_update_eq: "EEPROM_update a v e = e(a := v)"
  by (auto simp: EEPROM_update_def)

text \<open>
  Claim C10. Whatever the settings were when \<open>saveConfig\<close> ran, and whatever they are
  when \<open>loadConfig\<close> runs on the EEPROM it left (for instance the defaults after a
  power cycle), \<open>loadConfig\<close> sets SetBrightness, Speed and Delay to the saved values;
  \<open>saveConfig\<close> leaves the version tag 66 in cell 0. When cell 0 of an EEPROM does
  not hold 66, \<open>loadConfig\<close> returns the settings it was given.
\<close>

theorem loadConfig_saveConfig:
  "SetBrightness (loadConfig (saveConfig s e) t) = SetBrightness s \<and>
   Speed (loadConfig (saveConfig s e) t) = Speed s \<and>
   Delay (loadConfig (saveConfig s e) t) = Delay s \<and>
   EEPROM_read 0 (saveConfig s e) = 66 \<and>
   (EEPROM_read 0 e' \<noteq> 66 \<longrightarrow> loadConfig e' t = t)"
  by (simp add: loadConfig_def saveConfig_def EEPROM_update_eq EEPROM_read_def)

theorem loadConfig_saveConfig_witness:
  "SetBrightness (loadConfig (saveConfig \<lparr>SetBrightness = 200, Speed = 7, Delay = 3\<rparr> (\<lambda>_. 255))
       default_settings) = 200 \<and>
   Speed (loadConfig (saveConfig \<lparr>SetBrightness = 200, Speed = 7, Delay = 3\<rparr> (\<lambda>_. 255))
       default_settings) = 7 \<and>
   Delay (loadConfig (saveConfig \<lparr>SetBrightness = 200, Speed = 7, Delay = 3\<rparr> (\<lambda>_. 255))
       default_settings) = 3 \<and>
   EEPROM_read 0 (\<lambda>_. 255) \<noteq> 66 \<and>
   loadConfig (\<lambda>_. 255) default_settings = default_settings"
proof -
  have tag: "EEPROM_read 0 (\<lambda>_. 255) \<noteq> 66"
    by (simp add: EEPROM_read_def)
  from loadConfig_saveConfig [of "\<lparr>SetBrightness = 200, Speed = 7, Delay = 3\<rparr>" "\<lambda>_. 255"
      default_settings "\<lambda>_. 255"] tag
  show ?thesis by simp
qed

section \<open>Brightness scaling is a fixed-point product\<close>

lemma unat_u8_less: "unat (v :: u8) < 256"
  using unsigned_less [of v, where 'a = nat] by simp

lemma unat_one_plus_u8: "s \<noteq> (255 :: u8) \<Longrightarrow> unat (1 + s) = unat s + 1"
proof -
  assume s: "s \<noteq> 255"
  have "unat s \<noteq> 255"
  proof
    assume "unat s = 255"
    then have "(word_of_nat (unat s) :: u8) = word_of_nat 255" by simp
    then show False using s by simp
  qed
  with unat_u8_less [of s] have "unat s + 1 < 256" by simp
  then show ?thesis by (simp add: unat_word_ariths)
qed

lemma unat_product_u16:
  "unat ((ucast (v :: u8) :: u16) * ucast (b :: u8)) = unat v * unat b"
proof -
  have "unat v * unat b < 256 * 256"
    using unat_u8_less [of v] unat_u8_less [of b] by (intro mult_strict_mono) auto
  moreover have "take_bit 16 (unat v) = unat v" "take_bit 16 (unat b) = unat b"
    using unat_u8_less [of v] unat_u8_less [of b] by (auto simp: take_bit_nat_eq_self)
  ultimately show ?thesis
    by (simp add: unat_word_ariths unsigned_ucast_eq)
qed

lemma scale_channel_nat:
  "unat (scale_channel (brightness_b s) v) = unat v * (1 + unat s) div 256"
proof (cases "s = 255")
  case True
  then show ?thesis by (simp add: scale_channel_def brightness_b_def)
next
  case False
  then have b: "unat (brightness_b s) = unat s + 1"
    using unat_one_plus_u8 [of s] by (auto simp: brightness_b_def)
  then have b0: "brightness_b s \<noteq> 0"
    using unat_0 by fastforce
  have "unat v * (unat s + 1) \<le> 255 * 256"
    using unat_u8_less [of v] unat_u8_less [of s] by (intro mult_mono) auto
  then have lt: "unat v * (unat s + 1) div 256 < 256"
    by simp
  have p: "unat (drop_bit 8 ((ucast v :: u16) * ucast (brightness_b s)))
             = unat v * (unat s + 1) div 256"
    by (simp only: unat_drop_bit_eq unat_product_u16 b) (simp add: drop_bit_eq_div)
  have "unat (ucast (drop_bit 8 ((ucast v :: u16) * ucast (brightness_b s))) :: u8)
          = unat v * (unat s + 1) div 256"
    using lt by (simp only: unsigned_ucast_eq p) (simp add: take_bit_nat_eq_self)
  then show ?thesis using b0
    by (simp add: scale_channel_def)
qed

text \<open>
  Claim C7. For every channel byte \<open>v\<close> and every brightness byte \<open>s\<close>, the value
  \<open>bmpProcess\<close> passes to the gamma table is \<open>\<lfloor>v (1 + s) / 256\<rfloor>\<close>. At \<open>s = 255\<close> the
  8-bit multiplier \<open>1 + s\<close> is 0, the unscaled branch is taken and the byte passes
  unchanged, which is again \<open>\<lfloor>v 256 / 256\<rfloor>\<close>.
\<close>

theorem scale_channel_fixed_point:
  "unat (scale_channel (brightness_b s) v) = unat v * (1 + unat s) div 256 \<and>
   brightness_b 255 = 0 \<and>
   scale_channel (brightness_b 255) v = v \<and>
   unat v * (1 + unat (255 :: u8)) div 256 = unat v"
  by (simp add: scale_channel_nat) (simp add: brightness_b_def scale_channel_def)

section \<open>The index table during a scan\<close>


















section \<open>A second quick scan\<close>


section \<open>The speed check\<close>

declare benchmark_loop.simps [simp del]

lemma benchmark_loop_fold:
  "unat n = Suc j \<Longrightarrow>
   fst (benchmark_loop c block n mt)
     = fold max (map (\<lambda>k. read_latency c (block + word_of_nat k)) [0..<Suc j]) mt"
proof (induction j arbitrary: block n mt)
  case 0
  then have "n = 1"
    by (metis One_nat_def unat_1 word_unat_eq_iff)
  then show ?case
    by (subst benchmark_loop.simps) (auto simp: Let_def max_def not_less)
next
  case (Suc j)
  then have n0: "n - 1 \<noteq> 0" 
    by (metis diff_add_cancel add_0 unat_1 nat.inject One_nat_def Zero_not_Suc old.nat.distinct(2) diff_is_0_eq' diff_zero  eq_iff_diff_eq_0)
  have n1: "unat (n - 1) = Suc j"
    using Suc.prems by (simp add: unat_minus_one unat_gt_0 [symmetric] del: unat_gt_0)
  have shift: "map (\<lambda>k. read_latency c (block + 1 + word_of_nat k)) [0..<Suc j]
        = map (\<lambda>k. read_latency c (block + word_of_nat k)) [Suc 0..<Suc (Suc j)]"
    by (simp only: map_Suc_upt [symmetric] map_map) (simp add: comp_def add.assoc)
  have "fst (benchmark_loop c block n mt)
        = fst (benchmark_loop c (block + 1) (n - 1) (max (read_latency c block) mt))"
    using n0 by (subst benchmark_loop.simps) (auto simp: Let_def max_def not_less)
  also have "\<dots> = fold max (map (\<lambda>k. read_latency c (block + 1 + word_of_nat k)) [0..<Suc j])
                      (max (read_latency c block) mt)"
    by (rule Suc.IH [OF n1])
  also have "\<dots> = fold max (map (\<lambda>k. read_latency c (block + word_of_nat k)) [0..<Suc (Suc j)]) mt"
    by (simp only: shift) (simp add: upt_conv_Cons del: upt_Suc)
  finally show ?case .
qed


lemma unat_fold_max:
  "unat (fold max ws (a :: u32)) = fold max (map unat ws) (unat a)"
proof (induction ws arbitrary: a)
  case Nil
  then show ?case by simp
next
  case (Cons w ws)
  have "unat (max w a) = max (unat w) (unat a)"
    by (simp add: max_def word_le_nat_alt)
  with Cons show ?case by simp
qed

lemma benchmark_worst:
  assumes "n \<noteq> 0"
  shows "unat (fst (benchmark c block n)) = worst_latency c block (unat n)"
proof -
  from assms obtain j where j: "unat n = Suc j"
    by (metis unat_gt_0 gr0_implies_Suc)
  let ?f = "\<lambda>k. unat (read_latency c (block + word_of_nat k))"
  have "unat (fst (benchmark c block n)) = fold max (map ?f [0..<Suc j]) 0"
    by (simp only: benchmark_def benchmark_loop_fold [OF j] unat_fold_max map_map comp_def unat_0)
  also have "\<dots> = fold max (map ?f [Suc 0..<Suc j]) (?f 0)"
    by (simp add: upt_conv_Cons del: upt_Suc)
  also have "\<dots> = Max (set (?f 0 # map ?f [Suc 0..<Suc j]))"
    by (simp only: Max.set_eq_fold)
  also have "?f 0 # map ?f [Suc 0..<Suc j] = map ?f [0..<Suc j]"
    by (simp add: upt_conv_Cons del: upt_Suc)
  also have "set (map ?f [0..<Suc j]) = ?f ` {..<Suc j}"
    by (simp only: set_map set_upt atLeast0LessThan)
  finally show ?thesis
    by (simp only: worst_latency_def j)
qed

lemma frame_rate_nat:
  assumes "unat t * 21 < 2 ^ 32"
  shows "unat (frame_rate t) = rate_of_latency (unat t)"
proof -
  have a: "unat (t * 21) = unat t * 21"
    using assms by (simp add: unat_word_ariths)
  have b: "unat ((t * 21) div 20) = unat t * 21 div 20"
    by (simp add: unat_div a)
  have c: "unat t * 21 div 20 < 214748365"
    using assms by simp
  have d: "unat ((t * 21) div 20 + word_of_nat (N_LEDS * 30) + word_of_nat OVERHEAD)
            = unat t * 21 div 20 + 30 * N_LEDS + OVERHEAD"
  proof -
    have "unat ((t * 21) div 20 + 4470) = unat ((t * 21) div 20) + 4470"
      using c by (simp add: unat_word_ariths b)
    then show ?thesis
      by (simp add: b N_LEDS_def OVERHEAD_def add.assoc)
  qed
  have e: "unat ((1000000 :: u32) div ((t * 21) div 20 + word_of_nat (N_LEDS * 30) + word_of_nat OVERHEAD))
            = rate_of_latency (unat t)"
    by (simp only: unat_div d rate_of_latency_def) simp
  have "rate_of_latency (unat t) \<le> 1000000 div 4470"
    unfolding rate_of_latency_def N_LEDS_def OVERHEAD_def
    by (intro div_le_mono2) simp_all
  then have f: "rate_of_latency (unat t) < 65536" by simp
  show ?thesis
    using f by (simp only: frame_rate_def unsigned_ucast_eq e) (simp add: take_bit_nat_eq_self)
qed


lemma rates_depend_on_card_and_table:
  assumes "card m' = card m" and "fileIndex m' = fileIndex m"
  shows "measured_rate m' = measured_rate m" and "frame_measurable m' = frame_measurable m"
  unfolding measured_rate_def frame_measurable_def frame_raw_def assms by (rule refl)+

lemma getFileName_raw:
  assumes "frame_raw m i = Some f"
  shows "\<exists>name. getFileName m old (word_of_nat i) 1 = Inr name \<and> sd_files (card m) name = Some f"
proof -
  from assms have i: "i < FILE_INDEX_SIZE"
    by (simp add: frame_raw_def split: if_splits)
  then have u: "unat (word_of_nat i :: u8) = i"
    by (simp add: unat_of_nat FILE_INDEX_SIZE_def)
  from assms i show ?thesis
    by (auto simp: frame_raw_def getFileName_def u Let_def split: option.splits)
qed

lemma checkSpeed_loop_fold:
  "\<forall>j < k. frame_measurable m (i + j) \<Longrightarrow>
   \<exists>m'. checkSpeed_loop k (word_of_nat i) outfile m = Inr m' \<and>
        unat (maxLPS m') = fold max (map (measured_rate m) [i..<i + k]) (unat (maxLPS m))"
proof (induction k arbitrary: i outfile m)
  case 0
  then show ?case by simp
next
  case (Suc k)
  from Suc.prems have "frame_measurable m i"
    by (metis add.right_neutral zero_less_Suc)
  then obtain f fb where f: "frame_raw m i = Some f" "f_first f = Some fb"
      "f_size f div 512 \<noteq> 0"
      "worst_latency (card m) fb (unat (f_size f div 512)) * 21 < 2 ^ 32"
    by (auto simp: frame_measurable_def split: option.splits)
  from getFileName_raw [OF f(1)] obtain name where
    name: "getFileName m outfile (word_of_nat i) 1 = Inr name" "sd_files (card m) name = Some f"
    by blast
  let ?t = "fst (benchmark (card m) fb (f_size f div 512))"
  have t: "unat ?t = worst_latency (card m) fb (unat (f_size f div 512))"
    by (rule benchmark_worst [OF f(3)])
  have rate: "unat (frame_rate ?t) = measured_rate m i"
    using f frame_rate_nat [of ?t] by (simp add: t measured_rate_def)
  define m2 where "m2 = m\<lparr>firstBlock := fb, nBlocks := f_size f div 512,
      sdBuf := snd (benchmark (card m) fb (f_size f div 512)),
      maxLPS := (if frame_rate ?t > maxLPS m then frame_rate ?t else maxLPS m)\<rparr>"
  have step: "checkSpeed_loop (Suc k) (word_of_nat i) outfile m
                = checkSpeed_loop k (word_of_nat (Suc i)) name m2"
    using name f(2) by (simp add: Let_def m2_def add.commute)
  have same: "card m2 = card m" "fileIndex m2 = fileIndex m"
    by (simp_all add: m2_def)
  have mx: "unat (maxLPS m2) = max (measured_rate m i) (unat (maxLPS m))"
    using rate by (auto simp: m2_def max_def word_less_nat_alt)
  have "\<forall>j < k. frame_measurable m2 (Suc i + j)"
  proof (intro allI impI)
    fix j assume "j < k"
    then have "frame_measurable m (i + Suc j)"
      using Suc.prems by (meson Suc_less_eq)
    then show "frame_measurable m2 (Suc i + j)"
      by (simp add: rates_depend_on_card_and_table [OF same])
  qed
  from Suc.IH [OF this, of name] obtain m' where
    m': "checkSpeed_loop k (word_of_nat (Suc i)) name m2 = Inr m'"
        "unat (maxLPS m') = fold max (map (measured_rate m2) [Suc i..<Suc i + k]) (unat (maxLPS m2))"
    by blast
  have "unat (maxLPS m') = fold max (map (measured_rate m) [i..<i + Suc k]) (unat (maxLPS m))"
    by (simp only: m'(2) mx rates_depend_on_card_and_table [OF same])
       (simp add: upt_conv_Cons del: upt_Suc)
  with step m'(1) show ?case by simp
qed

text \<open>
  Claim C1, as the program has it. When every indexed Frame can be measured,
  \<open>checkSpeed\<close> returns, and the \<open>maxLPS\<close> it leaves is the largest of the value
  \<open>maxLPS\<close> had before (0 after reset) and the rates the Frames allow: the rate of the
  fastest Frame, not of the slowest. The rate a Frame allows is computed as the claim
  says, from the worst latency of the consecutive reads of its blocks.
\<close>

theorem checkSpeed_is_maximum:
  assumes "\<forall>i < unat (nFrames m). frame_measurable m i"
  shows "\<exists>m'. checkSpeed uout m = Inr m' \<and>
           unat (maxLPS m') =
             Max (insert (unat (maxLPS m)) (measured_rate m ` {..<unat (nFrames m)}))"
proof -
  from assms have "\<forall>j < unat (nFrames m). frame_measurable m (0 + j)" by simp
  from checkSpeed_loop_fold [OF this, of uout] obtain m' where
    m': "checkSpeed_loop (unat (nFrames m)) 0 uout m = Inr m'"
        "unat (maxLPS m') = fold max (map (measured_rate m) [0..<0 + unat (nFrames m)]) (unat (maxLPS m))"
    by auto
  have "fold max (map (measured_rate m) [0..<unat (nFrames m)]) (unat (maxLPS m))
          = Max (set (unat (maxLPS m) # map (measured_rate m) [0..<unat (nFrames m)]))"
    by (simp only: Max.set_eq_fold)
  also have "set (unat (maxLPS m) # map (measured_rate m) [0..<unat (nFrames m)])
          = insert (unat (maxLPS m)) (measured_rate m ` {..<unat (nFrames m)})"
    by (simp add: atLeast0LessThan)
  finally show ?thesis
    using m' by (auto simp: checkSpeed_def)
qed

lemma two_frame_rates:
  "measured_rate two_frame_machine 0 = 223" "measured_rate two_frame_machine (Suc 0) = 66"
  "frame_measurable two_frame_machine 0" "frame_measurable two_frame_machine (Suc 0)"
proof -
  have r0: "frame_raw two_frame_machine 0 = Some \<lparr>f_data = [], f_first = Some 100, f_size = 512\<rparr>"
    and r1: "frame_raw two_frame_machine (Suc 0) = Some \<lparr>f_data = [], f_first = Some 200, f_size = 512\<rparr>"
    by code_simp+
  have w0: "worst_latency (card two_frame_machine) 100 (Suc 0) = 0"
    and w1: "worst_latency (card two_frame_machine) 200 (Suc 0) = 10000"
    by code_simp+
  show "measured_rate two_frame_machine 0 = 223" "measured_rate two_frame_machine (Suc 0) = 66"
    "frame_measurable two_frame_machine 0" "frame_measurable two_frame_machine (Suc 0)"
    by (simp_all add: measured_rate_def frame_measurable_def r0 r1 w0 w1 rate_of_latency_def
        N_LEDS_def OVERHEAD_def)
qed

theorem checkSpeed_is_maximum_witness:
  "unat (nFrames two_frame_machine) = 2 \<and>
   frame_measurable two_frame_machine 0 \<and> frame_measurable two_frame_machine 1 \<and>
   unat (maxLPS two_frame_machine) = 0 \<and>
   (\<exists>m'. checkSpeed [] two_frame_machine = Inr m' \<and> unat (maxLPS m') = 223)"
proof -
  have n: "unat (nFrames two_frame_machine) = 2" and z: "unat (maxLPS two_frame_machine) = 0"
    by code_simp+
  have all: "\<forall>i < unat (nFrames two_frame_machine). frame_measurable two_frame_machine i"
    using two_frame_rates(3,4) by (simp add: n less_Suc_eq numeral_2_eq_2)
  have "{..<2 :: nat} = {0, 1}" by auto
  then have "Max (insert (unat (maxLPS two_frame_machine))
               (measured_rate two_frame_machine ` {..<unat (nFrames two_frame_machine)})) = 223"
    by (simp add: n z two_frame_rates)
  with checkSpeed_is_maximum [OF all, of "[]"] n z two_frame_rates(3,4)
  show ?thesis by simp
qed

theorem checkSpeed_minimum_counterexample:
  "unat (nFrames two_frame_machine) = 2 \<and>
   measured_rate two_frame_machine 0 = 223 \<and>
   measured_rate two_frame_machine 1 = 66 \<and>
   Min (measured_rate two_frame_machine ` {0, 1}) = 66 \<and>
   map_sum fst (unat \<circ> maxLPS) (checkSpeed [] two_frame_machine) = Inr 223"
proof -
  have "unat (nFrames two_frame_machine) = 2"
    and "map_sum fst (unat \<circ> maxLPS) (checkSpeed [] two_frame_machine) = Inr 223"
    by code_simp+
  then show ?thesis by (simp add: two_frame_rates)
qed

text \<open>
  Claim C9. The speed-check step of \<open>setup()\<close> and of the brightness menu is
  \<open>checkSpeed()\<close> followed by the clamp. Whenever the step returns, whatever the
  latencies measured, \<open>maxLPS\<close> is at most 400.
\<close>

theorem speedCheck_ceiling:
  "speedCheck uout m = Inr m' \<Longrightarrow> unat (maxLPS m') \<le> 400"
proof -
  assume "speedCheck uout m = Inr m'"
  then obtain m1 where m1: "checkSpeed uout m = Inr m1"
    and m': "m' = (if maxLPS m1 > 400 then m1\<lparr>maxLPS := 400\<rparr> else m1)"
    by (auto simp: speedCheck_def split: sum.splits)
  show ?thesis
  proof (cases "maxLPS m1 > 400")
    case True
    with m' show ?thesis by simp
  next
    case False
    then have "maxLPS m1 \<le> 400" by simp
    then have "unat (maxLPS m1) \<le> unat (400 :: u16)" by (simp only: word_le_nat_alt)
    with False m' show ?thesis by simp
  qed
qed

theorem speedCheck_ceiling_witness:
  "\<exists>m'. speedCheck [] two_frame_machine = Inr m' \<and> unat (maxLPS m') = 223 \<and>
        unat (maxLPS m') \<le> 400"
proof -
  have ev: "map_sum fst (unat \<circ> maxLPS) (speedCheck [] two_frame_machine) = Inr 223"
    by code_simp
  then obtain m' where m': "speedCheck [] two_frame_machine = Inr m'"
    by (cases "speedCheck [] two_frame_machine") auto
  with ev have "unat (maxLPS m') = 223" by simp
  with m' speedCheck_ceiling [OF m'] show ?thesis by blast
qed

section \<open>The conversion of a bitmap row by row\<close>

lemma and_minus_four: "(x :: int) AND (- 4) = x div 4 * 4"
proof -
  have "(- 4 :: int) = NOT (mask 2)"
    using minus_exp_eq_not_mask [of 2, where 'a = int] by simp
  moreover have "x AND NOT (mask 2) = push_bit 2 (drop_bit 2 x)"
  proof (rule bit_eqI)
    fix n
    show "bit (x AND NOT (mask 2)) n = bit (push_bit 2 (drop_bit 2 x)) n"
    proof (cases "n < 2")
      case True
      then show ?thesis by (simp add: bit_simps)
    next
      case False
      then obtain k where "n = 2 + k"
        by (metis le_Suc_ex not_less)
      then show ?thesis by (simp add: bit_simps)
    qed
  qed
  ultimately show ?thesis
    by (simp add: push_bit_eq_mult drop_bit_eq_div)
qed

lemma i16_id: "- 32768 \<le> x \<Longrightarrow> x \<le> 32767 \<Longrightarrow> i16 x = x"
  unfolding i16_def by (rule signed_take_bit_int_eq_self) simp_all

lemma i16_range: "- 32768 \<le> i16 x \<and> i16 x \<le> 32767"
  unfolding i16_def
  using signed_take_bit_int_greater_eq_minus_exp [of 15 x] signed_take_bit_int_less_exp [of 15 x]
  by simp

lemma unat_le16: "unat (le16 buf i) = unat (buf i) + 256 * unat (buf (i + 1))"
proof -
  have "unat (buf i) + 256 * unat (buf (i + 1)) < 65536"
    using unat_u8_less [of "buf i"] unat_u8_less [of "buf (i + 1)"] by simp
  moreover have "take_bit 16 (unat (buf i)) = unat (buf i)"
      "take_bit 16 (unat (buf (i + 1))) = unat (buf (i + 1))"
    using unat_u8_less [of "buf i"] unat_u8_less [of "buf (i + 1)"]
    by (auto simp: take_bit_nat_eq_self)
  ultimately show ?thesis
    by (simp add: le16_def unat_word_ariths unsigned_ucast_eq mod_mult_right_eq)
qed

lemma unat_le32:
  "unat (le32 buf i) = unat (buf i) + 256 * unat (buf (i + 1)) + 65536 * unat (buf (i + 2))
                         + 16777216 * unat (buf (i + 3))"
proof -
  have "unat (buf i) + 256 * unat (buf (i + 1)) + 65536 * unat (buf (i + 2))
          + 16777216 * unat (buf (i + 3)) < 4294967296"
    using unat_u8_less [of "buf i"] unat_u8_less [of "buf (i + 1)"]
      unat_u8_less [of "buf (i + 2)"] unat_u8_less [of "buf (i + 3)"] by simp
  moreover have "take_bit 32 (unat (buf j)) = unat (buf j)" for j
    using unat_u8_less [of "buf j"] by (auto simp: take_bit_nat_eq_self)
  ultimately show ?thesis
    by (simp add: le32_def unat_word_ariths unsigned_ucast_eq mod_mult_right_eq mod_add_eq mod_simps)
qed

lemma header_loaded:
  "34 \<le> length d \<Longrightarrow> i < 34 \<Longrightarrow> store buf 0 (file_read d 0 34) i = d ! i"
  by (simp add: store_def file_read_def)

lemma header_fields:
  assumes "34 \<le> length d"
  shows "i + 1 < 34 \<Longrightarrow> unat (le16 (store buf 0 (file_read d 0 34)) i) = bmp_u16 d i"
    and "i + 3 < 34 \<Longrightarrow> unat (le32 (store buf 0 (file_read d 0 34)) i) = bmp_u32 d i"
  using assms by (simp_all add: unat_le16 unat_le32 header_loaded bmp_u16_def bmp_u32_def)

lemma header_ok_iff:
  assumes "34 \<le> length d"
  shows "header_ok (store buf 0 (file_read d 0 34)) \<longleftrightarrow> supported_header d"
proof -
  let ?b = "store buf 0 (file_read d 0 34)"
  have "le16 ?b 0 = 0x4D42 \<longleftrightarrow> bmp_u16 d 0 = 0x4D42"
    using header_fields(1) [OF assms, of 0 buf] by (simp add: word_unat_eq_iff)
  moreover have "le16 ?b 26 = 1 \<longleftrightarrow> bmp_u16 d 26 = 1"
    using header_fields(1) [OF assms, of 26 buf] by (simp add: word_unat_eq_iff)
  moreover have "le16 ?b 28 = 24 \<longleftrightarrow> bmp_u16 d 28 = 24"
    using header_fields(1) [OF assms, of 28 buf] by (simp add: word_unat_eq_iff)
  moreover have "le32 ?b 30 = 0 \<longleftrightarrow> bmp_u32 d 30 = 0"
    using header_fields(2) [OF assms, of 30 buf] by (simp add: word_unat_eq_iff)
  ultimately show ?thesis
    by (simp only: header_ok_def supported_header_def)
qed

lemma header_dimensions:
  assumes "34 \<le> length d"
  shows "i16 (uint (le32 (store buf 0 (file_read d 0 34)) 18)) = bmp_width d"
    and "i16 (uint (le32 (store buf 0 (file_read d 0 34)) 22)) = bmp_height d"
    and "le32 (store buf 0 (file_read d 0 34)) 10 = word_of_nat (bmp_offset d)"
proof -
  show "i16 (uint (le32 (store buf 0 (file_read d 0 34)) 18)) = bmp_width d"
    using header_fields(2) [OF assms, of 18 buf] by (simp add: bmp_width_def uint_nat)
  show "i16 (uint (le32 (store buf 0 (file_read d 0 34)) 22)) = bmp_height d"
    using header_fields(2) [OF assms, of 22 buf] by (simp add: bmp_height_def uint_nat)
  have "word_of_nat (unat (le32 (store buf 0 (file_read d 0 34)) 10))
          = le32 (store buf 0 (file_read d 0 34)) 10"
    by simp
  then show "le32 (store buf 0 (file_read d 0 34)) 10 = word_of_nat (bmp_offset d)"
    using header_fields(2) [OF assms, of 10 buf] by (simp add: bmp_offset_def)
qed

lemma c_div_nonneg:
  assumes "0 \<le> a" "a \<le> 32767" "0 < b"
  shows "c_div a b = a div b"
proof -
  have "sgn a * sgn b * (\<bar>a\<bar> div \<bar>b\<bar>) = a div b"
    using assms by (cases "a = 0") (simp_all add: sgn_if)
  moreover have "0 \<le> a div b"
    using assms by (simp add: pos_imp_zdiv_nonneg_iff)
  moreover have "a div b \<le> a"
  proof -
    have "a div b \<le> a div 1"
      using assms by (intro zdiv_mono2) simp_all
    then show ?thesis by simp
  qed
  ultimately have "c_div a b = i16 (a div b)" and "- 32768 \<le> a div b \<and> a div b \<le> 32767"
    using assms by (simp_all only: c_div_def) linarith
  then show ?thesis
    by (simp add: i16_id)
qed

lemma crop_geometry_nat:
  assumes "0 < w" "w \<le> 10921"
  shows "crop_geometry w
           = (int (first_column (nat w)), int (led_start (nat w)), int (kept_columns (nat w)))"
proof (cases "int N_LEDS \<le> w")
  case True
  then have "c_div (c_sub w (int N_LEDS)) 2 = (w - int N_LEDS) div 2"
    using assms by (simp add: c_div_nonneg c_sub_def i16_id N_LEDS_def)
  moreover have "(w - int N_LEDS) div 2 = int ((nat w - N_LEDS) div 2)"
    using True by (simp add: N_LEDS_def zdiv_int)
  ultimately show ?thesis
    using True assms
    by (simp add: crop_geometry_def first_column_def led_start_def kept_columns_def N_LEDS_def)
next
  case False
  then have "c_mul (c_div (c_sub (int N_LEDS) w) 2) 3 = (int N_LEDS - w) div 2 * 3"
    using assms by (simp add: c_div_nonneg c_sub_def c_mul_def i16_id N_LEDS_def)
  moreover have "(int N_LEDS - w) div 2 * 3 = int (3 * ((N_LEDS - nat w) div 2))"
    using False assms by (simp add: N_LEDS_def zdiv_int)
  ultimately show ?thesis
    using False assms
    by (simp add: crop_geometry_def first_column_def led_start_def kept_columns_def N_LEDS_def)
qed

lemma row_size_nat:
  assumes "0 < w" "w \<le> 10921"
  shows "row_size w = word_of_nat ((nat w * 3 + 3) div 4 * 4)"
proof -
  have "c_add (c_mul w 3) 3 = w * 3 + 3"
    using assms by (simp add: c_add_def c_mul_def i16_id)
  moreover have "(w * 3 + 3) div 4 * 4 = int ((nat w * 3 + 3) div 4 * 4)"
    using assms by (simp add: zdiv_int)
  ultimately show ?thesis
    by (simp only: row_size_def and_minus_four) simp
qed

lemma store_Nil [simp]: "store buf p [] = buf"
  by (auto simp: store_def fun_eq_iff)

lemma store_Cons: "store buf p (x # xs) = (store buf (Suc p) xs)(p := x)"
  by (auto simp: store_def fun_eq_iff nth_Cons')

lemma load_pixel_values:
  "load_pixel b buf p 0 = scale_channel b (buf (p + 2))"
  "load_pixel b buf p (Suc 0) = scale_channel b (buf (p + 1))"
  "load_pixel b buf p 2 = scale_channel b (buf p)"
  by (simp_all add: load_pixel_def NEO_RED_def NEO_GREEN_def NEO_BLUE_def
      BMP_RED_def BMP_GREEN_def BMP_BLUE_def)

lemma upt_three: "[p..<p + 3 * Suc n] = p # Suc p # Suc (Suc p) # [p + 3..<p + 3 + 3 * n]"
proof -
  have "[p..<p + 3 * Suc n] = p # [Suc p..<p + 3 * Suc n]"
    by (simp add: upt_conv_Cons)
  also have "[Suc p..<p + 3 * Suc n] = Suc p # [Suc (Suc p)..<p + 3 * Suc n]"
    by (simp add: upt_conv_Cons)
  also have "[Suc (Suc p)..<p + 3 * Suc n] = Suc (Suc p) # [Suc (Suc (Suc p))..<p + 3 * Suc n]"
    by (simp add: upt_conv_Cons)
  finally show ?thesis by (simp add: numeral_3_eq_3)
qed

lemma col_loop_store:
  "col_loop T b row n col p (buf, acc) =
     (store buf p (led_pixels T b row col (map buf [p..<p + 3 * n])),
      acc + word_of_nat (row_sum (led_pixels T b row col (map buf [p..<p + 3 * n]))))"
proof (induction n arbitrary: col p buf acc)
  case 0
  then show ?case by (simp add: row_sum_def)
next
  case (Suc n)
  let ?d = "t_dither T (row mod 16) (col mod 16)"
  let ?c0 = "correct T ?d (scale_channel b (buf (p + 2)))"
  let ?c1 = "correct T ?d (scale_channel b (buf (p + 1)))"
  let ?c2 = "correct T ?d (scale_channel b (buf p))"
  let ?buf1 = "buf(p := ?c0, p + 1 := ?c1, p + 2 := ?c2)"
  let ?rest = "map buf [p + 3..<p + 3 + 3 * n]"
  have pp: "process_pixel T b row col p (buf, acc)
              = (?buf1, acc + ucast ?c0 + ucast ?c1 + ucast ?c2)"
    by (simp add: process_pixel_def Let_def load_pixel_values)
  have same: "map ?buf1 [p + 3..<p + 3 + 3 * n] = ?rest"
    by (rule map_cong) auto
  have src: "map buf [p..<p + 3 * Suc n] = buf p # buf (p + 1) # buf (p + 2) # ?rest"
    by (simp only: upt_three list.map) simp
  have leds: "led_pixels T b row col (map buf [p..<p + 3 * Suc n])
               = ?c0 # ?c1 # ?c2 # led_pixels T b row (Suc col) ?rest"
    by (simp only: src led_pixels.simps Let_def)
  have st: "store ?buf1 (p + 3) xs = store buf p (?c0 # ?c1 # ?c2 # xs)" for xs
  proof -
    have "store buf p (?c0 # ?c1 # ?c2 # xs)
            = (store buf (Suc (Suc (Suc p))) xs)(Suc (Suc p) := ?c2, Suc p := ?c1, p := ?c0)"
      by (simp only: store_Cons)
    also have "\<dots> = (store buf (Suc (Suc (Suc p))) xs)(p := ?c0, Suc p := ?c1, Suc (Suc p) := ?c2)"
      by (auto simp: fun_eq_iff)
    also have "\<dots> = store ?buf1 (p + 3) xs"
      by (auto simp: store_def fun_eq_iff numeral_3_eq_3)
    finally show ?thesis by simp
  qed
  have sm: "acc + ucast ?c0 + ucast ?c1 + ucast ?c2 + word_of_nat (row_sum xs)
             = acc + word_of_nat (row_sum (?c0 # ?c1 # ?c2 # xs))" for xs
    by (simp add: row_sum_def)
  show ?case
    by (simp only: col_loop.simps pp Suc.IH same leds st sm)
qed

lemma geometry_bounds:
  assumes "0 < w"
  shows "0 < kept_columns w"
    and "3 * first_column w + 3 * kept_columns w \<le> 3 * w"
    and "led_start w + 3 * kept_columns w \<le> 3 * N_LEDS"
    and "kept_columns w \<le> N_LEDS"
  using assms
  by (auto simp: kept_columns_def first_column_def led_start_def N_LEDS_def min_def)

lemma stride_bound: "3 * (w :: nat) \<le> (w * 3 + 3) div 4 * 4"
  by presburger

lemma convertible_dims:
  assumes "convertible d"
  shows "0 < nat (bmp_width d)" and "nat (bmp_width d) \<le> 10921"
    and "bmp_rows d \<le> 32767"
    and "int (nat (bmp_width d)) = bmp_width d"
  using assms i16_range [of "int (bmp_u32 d 22)"]
  by (auto simp: convertible_def bmp_rows_def bmp_height_def)

lemma bmp_context_convertible:
  assumes "convertible d"
  shows "bmp_context d outName brightness (store buf 0 (file_read d 0 34)) =
    \<lparr>bc_data = d,
     bc_out = (outName \<noteq> None),
     bc_b = (case brightness of Some s \<Rightarrow> brightness_b s | None \<Rightarrow> 0),
     bc_offset = word_of_nat (bmp_offset d),
     bc_startCol = int (first_column (nat (bmp_width d))),
     bc_rowSize = word_of_nat (bmp_stride d),
     bc_flip = (bmp_height d < 0),
     bc_height = int (bmp_rows d),
     bc_ledStart = int (led_start (nat (bmp_width d))),
     bc_columns = int (kept_columns (nat (bmp_width d)))\<rparr>"
proof -
  from assms have len: "34 \<le> length d" and w: "0 < bmp_width d" "bmp_width d \<le> 10921"
    and h: "- 32768 < bmp_height d"
    by (simp_all add: convertible_def)
  have hr: "bmp_height d \<le> 32767"
    using i16_range [of "int (bmp_u32 d 22)"] by (simp add: bmp_height_def)
  have neg: "bmp_height d < 0 \<Longrightarrow> c_neg (bmp_height d) = int (bmp_rows d)"
    using h hr by (simp add: c_neg_def i16_id bmp_rows_def)
  have pos: "\<not> bmp_height d < 0 \<Longrightarrow> bmp_height d = int (bmp_rows d)"
    by (simp add: bmp_rows_def)
  show ?thesis
    using neg pos
    by (simp add: bmp_context_def Let_def header_dimensions [OF len]
        crop_geometry_nat [OF w] row_size_nat [OF w] bmp_stride_def)
qed

lemma row_position:
  assumes "convertible d" and "k < bmp_rows d"
  shows "bmp_offset d + 3 * first_column (nat (bmp_width d)) + bmp_stride d * stored_index d k
           + 3 * kept_columns (nat (bmp_width d)) \<le> length d"
proof -
  let ?W = "nat (bmp_width d)"
  have j: "stored_index d k < bmp_rows d"
    using assms(2) by (simp add: stored_index_def)
  have "3 * first_column ?W + 3 * kept_columns ?W \<le> bmp_stride d"
    using geometry_bounds(2) [OF convertible_dims(1) [OF assms(1)]] stride_bound [of ?W]
    by (simp add: bmp_stride_def)
  then have "bmp_stride d * stored_index d k + (3 * first_column ?W + 3 * kept_columns ?W)
               \<le> bmp_stride d * Suc (stored_index d k)"
    by simp
  also have "\<dots> \<le> bmp_stride d * bmp_rows d"
    using j by (intro mult_le_mono2) simp
  finally show ?thesis
    using assms(1) by (simp add: convertible_def)
qed

lemma seek_target_nat:
  assumes "convertible d" and "k < bmp_rows d"
  shows "unat (seek_target (conversion_context d out b) k)
           = bmp_offset d + 3 * first_column (nat (bmp_width d)) + bmp_stride d * stored_index d k"
proof -
  let ?W = "nat (bmp_width d)"
  let ?j = "stored_index d k"
  have rows: "bmp_rows d \<le> 32767" by (rule convertible_dims(3) [OF assms(1)])
  have fc: "first_column ?W \<le> 10921"
    using convertible_dims(2) [OF assms(1)] by (auto simp: first_column_def)
  have a: "c_mul (int (first_column ?W)) 3 = int (3 * first_column ?W)"
    using fc by (simp add: c_mul_def i16_id)
  have b: "(if bmp_height d < 0 then c_sub (c_sub (int (bmp_rows d)) 1) (int k) else int k) = int ?j"
    using assms(2) rows by (auto simp: stored_index_def c_sub_def i16_id)
  have "seek_target (conversion_context d out b) k
          = word_of_nat (bmp_offset d) + word_of_int (int (3 * first_column ?W))
              + word_of_nat (bmp_stride d) * word_of_int (int ?j)"
    unfolding seek_target_def conversion_context_def bmp_ctx.simps a b ..
  then have eq: "seek_target (conversion_context d out b) k
          = word_of_nat (bmp_offset d + 3 * first_column ?W + bmp_stride d * ?j)"
    by simp
  have lt: "bmp_offset d + 3 * first_column ?W + bmp_stride d * ?j < 2 ^ LENGTH(32)"
    using row_position [OF assms] assms(1) by (simp add: convertible_def)
  show ?thesis
    unfolding eq by (simp only: unat_of_nat mod_less [OF lt])
qed

lemma row_bytes:
  assumes "convertible d" and "k < bmp_rows d"
  shows "file_read d (bmp_offset d + 3 * first_column (nat (bmp_width d))
                        + bmp_stride d * stored_index d k)
            (3 * kept_columns (nat (bmp_width d)))
           = strip_source (nat (bmp_width d)) (row_from_bottom d k)"
    and "length (strip_source (nat (bmp_width d)) (row_from_bottom d k))
           = 3 * kept_columns (nat (bmp_width d))"
proof -
  let ?W = "nat (bmp_width d)"
  let ?p = "bmp_offset d + bmp_stride d * stored_index d k"
  have rfb: "row_from_bottom d k = take (?W * 3) (drop ?p d)"
    by (simp add: row_from_bottom_def stored_row_def stored_index_def)
  have le: "3 * first_column ?W + 3 * kept_columns ?W \<le> 3 * ?W"
    by (rule geometry_bounds(2) [OF convertible_dims(1) [OF assms(1)]])
  have "strip_source ?W (row_from_bottom d k)
          = take (3 * kept_columns ?W) (drop (3 * first_column ?W + ?p) d)"
    using le by (simp add: strip_source_def rfb drop_take min_def)
  then show "file_read d (bmp_offset d + 3 * first_column ?W + bmp_stride d * stored_index d k)
               (3 * kept_columns ?W) = strip_source ?W (row_from_bottom d k)"
    by (simp add: file_read_def add.commute add.left_commute)
  show "length (strip_source ?W (row_from_bottom d k)) = 3 * kept_columns ?W"
  proof -
    have "length (strip_source ?W (row_from_bottom d k))
            = min (min (length d - ?p) (?W * 3) - 3 * first_column ?W) (3 * kept_columns ?W)"
      by (simp add: strip_source_def rfb)
    also have "\<dots> = 3 * kept_columns ?W"
      using row_position [OF assms] le by linarith
    finally show ?thesis .
  qed
qed

lemma length_led_pixels: "length (led_pixels T b r c xs) = 3 * (length xs div 3)"
  by (induction T b r c xs rule: led_pixels.induct) (simp_all add: Let_def)

lemma map_store_same: "map (store buf p xs) [p..<p + length xs] = xs"
  by (rule nth_equalityI) (simp_all add: store_def)

lemma store_store_same:
  "length ys = length xs \<Longrightarrow> store (store buf p xs) p ys = store buf p ys"
  by (auto simp: store_def fun_eq_iff)

lemma length_row_leds:
  assumes "convertible d" and "k < bmp_rows d"
  shows "length (row_leds T b d k) = 3 * kept_columns (nat (bmp_width d))"
  by (simp add: row_leds_def length_led_pixels row_bytes(2) [OF assms])

lemma row_step_convertible:
  assumes conv: "convertible d" and k: "k < bmp_rows d"
    and wr: "out \<longrightarrow> sd_write_ok (card m) (firstBlock m + word_of_nat k)"
  shows "\<exists>cur'. row_step T (conversion_context d out b) k (m, cur, lm) =
     Inr (m\<lparr>sdBuf := store (sdBuf m) (led_start (nat (bmp_width d))) (row_leds T b d k),
            card := (if out
                     then (card m)\<lparr>sd_blocks := (sd_blocks (card m))
                            (firstBlock m + word_of_nat k :=
                               store (sdBuf m) (led_start (nat (bmp_width d))) (row_leds T b d k))\<rparr>
                     else card m)\<rparr>,
          cur', max lm (word_of_nat (row_sum (row_leds T b d k))))"
proof -
  let ?W = "nat (bmp_width d)"
  let ?c = "conversion_context d out b"
  let ?kc = "kept_columns ?W"
  let ?ls = "led_start ?W"
  let ?pos = "bmp_offset d + 3 * first_column ?W + bmp_stride d * stored_index d k"
  let ?src = "strip_source ?W (row_from_bottom d k)"
  let ?L = "row_leds T b d k"
  have W: "0 < ?W" by (rule convertible_dims(1) [OF conv])
  note gb = geometry_bounds [OF W]
  have lsrc: "length ?src = 3 * ?kc" by (rule row_bytes(2) [OF conv k])
  have seek: "seekSet (bc_data ?c) cur (seek_target ?c k) = ?pos"
    using row_position [OF conv k]
    by (simp add: seekSet_def seek_target_nat [OF conv k]) (simp add: conversion_context_def)
  have n: "nat (c_mul (bc_columns ?c) 3 mod 65536) = 3 * ?kc"
    using gb(4) by (simp add: conversion_context_def c_mul_def i16_id N_LEDS_def)
  have bytes: "file_read (bc_data ?c) ?pos (3 * ?kc) = ?src"
    using row_bytes(1) [OF conv k] by (simp add: conversion_context_def)
  have ne: "?src \<noteq> []"
    using lsrc gb(1) by auto
  have fit: "\<not> (bc_ledStart ?c < 0 \<or> 512 < nat (bc_ledStart ?c) + length ?src)"
    using gb(3) lsrc by (simp add: conversion_context_def N_LEDS_def)
  have ls: "nat (bc_ledStart ?c) = ?ls" "nat (bc_columns ?c) = ?kc" "bc_b ?c = b" "bc_out ?c = out"
    by (simp_all add: conversion_context_def)
  have loaded: "map (store (sdBuf m) ?ls ?src) [?ls..<?ls + 3 * ?kc] = ?src"
    using map_store_same [of "sdBuf m" ?ls ?src] by (simp add: lsrc)
  have col: "col_loop T b k ?kc 0 ?ls (store (sdBuf m) ?ls ?src, 0)
               = (store (sdBuf m) ?ls ?L, word_of_nat (row_sum ?L))"
    using length_row_leds [OF conv k, of T b] lsrc
    by (simp add: col_loop_store loaded store_store_same row_leds_def)
  have mx: "(if word_of_nat (row_sum ?L) > lm then word_of_nat (row_sum ?L) else lm)
              = max lm (word_of_nat (row_sum ?L) :: u32)"
    by (auto simp: max_def)
  show ?thesis
    using wr ne fit
    by (simp add: row_step_def Let_def seek n bytes ls col mx writeBlock_def)
qed

lemma block_distinct:
  assumes "k < 2 ^ 32" "r < 2 ^ 32" "k \<noteq> r"
  shows "(fb :: u32) + word_of_nat k \<noteq> fb + word_of_nat r"
proof
  assume "fb + word_of_nat k = fb + word_of_nat r"
  then have "(word_of_nat k :: u32) = word_of_nat r" by simp
  then have "unat (word_of_nat k :: u32) = unat (word_of_nat r :: u32)" by simp
  then show False using assms by (simp add: unat_of_nat)
qed

lemma row_loop_convertible:
  assumes conv: "convertible d"
  shows "r + n \<le> bmp_rows d \<Longrightarrow>
    (out \<longrightarrow> (\<forall>k. r \<le> k \<and> k < r + n \<longrightarrow> sd_write_ok (card m) (firstBlock m + word_of_nat k))) \<Longrightarrow>
    \<exists>m' cur'. row_loop T (conversion_context d out b) n r (m, cur, lm) =
        Inr (m', cur', fold max (map (\<lambda>k. word_of_nat (row_sum (row_leds T b d k))) [r..<r + n]) lm) \<and>
      sd_files (card m') = sd_files (card m) \<and>
      sd_write_ok (card m') = sd_write_ok (card m) \<and>
      firstBlock m' = firstBlock m \<and> nBlocks m' = nBlocks m \<and>
      (out \<longrightarrow> (\<forall>k. r \<le> k \<and> k < r + n \<longrightarrow>
          sd_blocks (card m') (firstBlock m + word_of_nat k)
            = store (sdBuf m) (led_start (nat (bmp_width d))) (row_leds T b d k))) \<and>
      (\<forall>q. (\<forall>k. r \<le> k \<and> k < r + n \<longrightarrow> q \<noteq> firstBlock m + word_of_nat k) \<longrightarrow>
          sd_blocks (card m') q = sd_blocks (card m) q)"
proof (induction n arbitrary: r m cur lm)
  case 0
  then show ?case by auto
next
  case (Suc n)
  let ?ls = "led_start (nat (bmp_width d))"
  let ?L = "\<lambda>k. row_leds T b d k"
  let ?B = "store (sdBuf m) ?ls (?L r)"
  let ?fb = "firstBlock m"
  from Suc.prems have r: "r < bmp_rows d" by simp
  have wr: "out \<longrightarrow> sd_write_ok (card m) (?fb + word_of_nat r)"
    using Suc.prems(2) by simp
  define m1 where "m1 = m\<lparr>sdBuf := ?B,
      card := (if out then (card m)\<lparr>sd_blocks := (sd_blocks (card m))(?fb + word_of_nat r := ?B)\<rparr>
               else card m)\<rparr>"
  from row_step_convertible [OF conv r wr, of T b cur lm] obtain cur1 where
    step: "row_step T (conversion_context d out b) r (m, cur, lm)
             = Inr (m1, cur1, max lm (word_of_nat (row_sum (?L r))))"
    unfolding m1_def by blast
  have m1: "sd_files (card m1) = sd_files (card m)" "sd_write_ok (card m1) = sd_write_ok (card m)"
      "firstBlock m1 = ?fb" "nBlocks m1 = nBlocks m" "sdBuf m1 = ?B"
    by (simp_all add: m1_def)
  have p1: "Suc r + n \<le> bmp_rows d" using Suc.prems(1) by simp
  have p2: "out \<longrightarrow> (\<forall>k. Suc r \<le> k \<and> k < Suc r + n \<longrightarrow>
              sd_write_ok (card m1) (firstBlock m1 + word_of_nat k))"
    using Suc.prems(2) by (simp add: m1)
  from Suc.IH [OF p1 p2, of cur1 "max lm (word_of_nat (row_sum (?L r)))"]
  obtain m' cur' where res:
    "row_loop T (conversion_context d out b) n (Suc r) (m1, cur1, max lm (word_of_nat (row_sum (?L r))))
       = Inr (m', cur', fold max (map (\<lambda>k. word_of_nat (row_sum (?L k))) [Suc r..<Suc r + n])
                          (max lm (word_of_nat (row_sum (?L r)))))"
    and keep: "sd_files (card m') = sd_files (card m1)" "sd_write_ok (card m') = sd_write_ok (card m1)"
      "firstBlock m' = firstBlock m1" "nBlocks m' = nBlocks m1"
    and blocks: "out \<longrightarrow> (\<forall>k. Suc r \<le> k \<and> k < Suc r + n \<longrightarrow>
          sd_blocks (card m') (firstBlock m1 + word_of_nat k) = store (sdBuf m1) ?ls (?L k))"
    and other: "\<forall>q. (\<forall>k. Suc r \<le> k \<and> k < Suc r + n \<longrightarrow> q \<noteq> firstBlock m1 + word_of_nat k) \<longrightarrow>
          sd_blocks (card m') q = sd_blocks (card m1) q"
    by blast
  have rows: "bmp_rows d \<le> 32767" by (rule convertible_dims(3) [OF conv])
  have fold: "fold max (map (\<lambda>k. word_of_nat (row_sum (?L k))) [Suc r..<Suc r + n])
                 (max lm (word_of_nat (row_sum (?L r))))
            = fold max (map (\<lambda>k. word_of_nat (row_sum (?L k)) :: u32) [r..<r + Suc n]) lm"
  proof -
    have "[r..<r + Suc n] = r # [Suc r..<Suc r + n]"
      by (subst upt_rec) simp
    then show ?thesis
      by (simp only: list.map fold_simps max.commute)
  qed
  have run: "row_loop T (conversion_context d out b) (Suc n) r (m, cur, lm)
        = Inr (m', cur', fold max (map (\<lambda>k. word_of_nat (row_sum (?L k))) [r..<r + Suc n]) lm)"
    by (simp only: row_loop.simps step sum.case res fold)
  have blk: "sd_blocks (card m') (?fb + word_of_nat k) = store (sdBuf m) ?ls (?L k)"
    if out: "out" and k: "r \<le> k" "k < r + Suc n" for k
  proof (cases "k = r")
    case True
    have "\<forall>j. Suc r \<le> j \<and> j < Suc r + n \<longrightarrow> ?fb + word_of_nat r \<noteq> firstBlock m1 + word_of_nat j"
    proof (intro allI impI)
      fix j assume j: "Suc r \<le> j \<and> j < Suc r + n"
      with rows Suc.prems(1) have "r < 2 ^ 32" "j < 2 ^ 32" "r \<noteq> j" by simp_all
      then show "?fb + word_of_nat r \<noteq> firstBlock m1 + word_of_nat j"
        unfolding m1 by (rule block_distinct)
    qed
    with other have "sd_blocks (card m') (?fb + word_of_nat r) = sd_blocks (card m1) (?fb + word_of_nat r)"
      by blast
    with True out show ?thesis by (simp add: m1_def)
  next
    case False
    with k have kk: "Suc r \<le> k \<and> k < Suc r + n" by simp
    have len: "length (?L k) = length (?L r)"
      using length_row_leds [OF conv, of k T b] length_row_leds [OF conv r, of T b] kk Suc.prems(1)
      by simp
    from blocks out kk have "sd_blocks (card m') (firstBlock m1 + word_of_nat k) = store (sdBuf m1) ?ls (?L k)"
      by blast
    then show ?thesis
      by (simp add: m1 store_store_same [OF len])
  qed
  have oth: "sd_blocks (card m') q = sd_blocks (card m) q"
    if q: "\<forall>k. r \<le> k \<and> k < r + Suc n \<longrightarrow> q \<noteq> ?fb + word_of_nat k" for q
  proof -
    from q have "\<forall>k. Suc r \<le> k \<and> k < Suc r + n \<longrightarrow> q \<noteq> firstBlock m1 + word_of_nat k"
      by (simp add: m1)
    with other have "sd_blocks (card m') q = sd_blocks (card m1) q" by blast
    moreover from q have "q \<noteq> ?fb + word_of_nat r" by simp
    ultimately show ?thesis by (simp add: m1_def)
  qed
  show ?case
    using run keep blk oth by (auto simp: m1)
qed

lemma bmpProcess_convertible:
  assumes f: "sd_files (card m) inName = Some f" and conv: "convertible (f_data f)"
    and alloc: "sd_alloc (card m) out (word_of_int (512 * bmp_height (f_data f))) = Some fb"
    and wr: "\<forall>k < bmp_rows (f_data f). sd_write_ok (card m) (fb + word_of_nat k)"
  shows "\<exists>m'. bmpProcess T inName (Some out) (Some s) m =
      Inr (Some (suggest_brightness s (estimate_current
             (fold max (map (\<lambda>k. word_of_nat (row_sum (row_leds T (brightness_b s) (f_data f) k)))
                        [0..<bmp_rows (f_data f)]) 0))), m') \<and>
      sd_files (card m') out
        = Some \<lparr>f_data = [], f_first = Some fb, f_size = word_of_int (512 * bmp_height (f_data f))\<rparr> \<and>
      firstBlock m' = fb \<and>
      (\<forall>k < bmp_rows (f_data f).
         sd_blocks (card m') (fb + word_of_nat k)
           = store (start_buffer (sdBuf m) (f_data f)) (led_start (nat (bmp_width (f_data f))))
               (row_leds T (brightness_b s) (f_data f) k))"
proof -
  let ?d = "f_data f"
  let ?H = "store (sdBuf m) 0 (file_read ?d 0 34)"
  let ?W = "nat (bmp_width ?d)"
  let ?c = "conversion_context ?d True (brightness_b s)"
  from conv have len: "34 \<le> length ?d" and sup: "supported_header ?d"
    by (simp_all add: convertible_def)
  have hdr: "file_read ?d 0 34 \<noteq> []" "length (file_read ?d 0 34) = 34"
    using len by (auto simp: file_read_def)
  have ok: "header_ok ?H" using header_ok_iff [OF len] sup by simp
  have ctx: "bmp_context ?d (Some out) (Some s) ?H = ?c"
    by (simp add: bmp_context_convertible [OF conv] conversion_context_def)
  define m2 where "m2 = m\<lparr>sdBuf := ?H,
      card := (sd_remove out (card m))\<lparr>sd_files := (sd_files (sd_remove out (card m)))
                (out \<mapsto> \<lparr>f_data = [], f_first = Some fb,
                           f_size = word_of_int (512 * bmp_height ?d)\<rparr>)\<rparr>,
      firstBlock := fb, nBlocks := word_of_int (bmp_height ?d)\<rparr>"
  have oo: "open_output (Some out) (bmp_height ?d) (m\<lparr>sdBuf := ?H\<rparr>) = Inr m2"
    using alloc by (simp add: open_output_def createContiguous_def sd_remove_def m2_def Let_def)
  define m3 where "m3 = (if int N_LEDS \<le> bmp_width ?d then m2
                          else m2\<lparr>sdBuf := memset0 (sdBuf m2) (N_LEDS * 3)\<rparr>)"
  have m3: "sdBuf m3 = start_buffer (sdBuf m) ?d" "firstBlock m3 = fb"
      "sd_write_ok (card m3) = sd_write_ok (card m)"
      "sd_files (card m3) out
         = Some \<lparr>f_data = [], f_first = Some fb, f_size = word_of_int (512 * bmp_height ?d)\<rparr>"
  proof -
    have "int N_LEDS \<le> bmp_width ?d \<longleftrightarrow> N_LEDS \<le> ?W"
      using convertible_dims(4) [OF conv] by linarith
    then show "sdBuf m3 = start_buffer (sdBuf m) ?d"
      by (simp add: m3_def m2_def start_buffer_def)
  qed (simp_all add: m3_def m2_def sd_remove_def)
  have p1: "0 + bmp_rows ?d \<le> bmp_rows ?d" by simp
  have p2: "True \<longrightarrow> (\<forall>k. 0 \<le> k \<and> k < 0 + bmp_rows ?d \<longrightarrow>
              sd_write_ok (card m3) (firstBlock m3 + word_of_nat k))"
    using wr by (simp add: m3)
  from row_loop_convertible [OF conv p1 p2, of T "brightness_b s" 34 0]
  obtain m' cur' where run: "row_loop T ?c (bmp_rows ?d) 0 (m3, 34, 0) =
        Inr (m', cur', fold max (map (\<lambda>k. word_of_nat (row_sum (row_leds T (brightness_b s) ?d k)))
                                  [0..<bmp_rows ?d]) 0)"
    and keep: "sd_files (card m') = sd_files (card m3)" "firstBlock m' = firstBlock m3"
    and blocks: "\<forall>k. 0 \<le> k \<and> k < 0 + bmp_rows ?d \<longrightarrow>
          sd_blocks (card m') (firstBlock m3 + word_of_nat k)
            = store (sdBuf m3) (led_start ?W) (row_leds T (brightness_b s) ?d k)"
    by auto
  have hgt: "nat (bc_height ?c) = bmp_rows ?d"
    by (simp add: conversion_context_def)
  have "bmpProcess T inName (Some out) (Some s) m =
      Inr (Some (suggest_brightness s (estimate_current
             (fold max (map (\<lambda>k. word_of_nat (row_sum (row_leds T (brightness_b s) ?d k)))
                        [0..<bmp_rows ?d]) 0))), m')"
    using hdr(1) ok
    by (simp add: bmpProcess_def f Let_def header_dimensions [OF len] ctx oo hgt hdr(2)
        m3_def [symmetric] run)
  then show ?thesis
    using keep blocks by (auto simp: m3)
qed

lemma row_from_bottom_length:
  assumes "convertible d" and "k < bmp_rows d"
  shows "length (row_from_bottom d k) = 3 * nat (bmp_width d)"
proof -
  let ?W = "nat (bmp_width d)"
  let ?p = "bmp_offset d + bmp_stride d * stored_index d k"
  have rfb: "row_from_bottom d k = take (?W * 3) (drop ?p d)"
    by (simp add: row_from_bottom_def stored_row_def stored_index_def)
  have j: "stored_index d k < bmp_rows d"
    using assms(2) by (simp add: stored_index_def)
  have "bmp_stride d * stored_index d k + 3 * ?W \<le> bmp_stride d * Suc (stored_index d k)"
    using stride_bound [of ?W] by (simp add: bmp_stride_def)
  also have "\<dots> \<le> bmp_stride d * bmp_rows d"
    using j by (intro mult_le_mono2) simp
  finally have "?p + 3 * ?W \<le> length d"
    using assms(1) by (simp add: convertible_def)
  then show ?thesis by (simp add: rfb)
qed

lemma shown_strip:
  assumes conv: "convertible d" and k: "k < bmp_rows d"
  shows "shown (store (start_buffer buf d) (led_start (nat (bmp_width d))) (row_leds T b d k))
           = strip_leds T b k (nat (bmp_width d)) (row_from_bottom d k)"
proof (cases "N_LEDS \<le> nat (bmp_width d)")
  case True
  let ?W = "nat (bmp_width d)"
  have src: "strip_source ?W (row_from_bottom d k)
               = take (3 * N_LEDS) (drop (3 * ((?W - N_LEDS) div 2)) (row_from_bottom d k))"
    using True by (simp add: strip_source_def kept_columns_def first_column_def min_def)
  have len: "length (row_leds T b d k) = N_LEDS * 3"
    using length_row_leds [OF conv k, of T b] True by (simp add: kept_columns_def min_def)
  have "shown (store (start_buffer buf d) 0 (row_leds T b d k)) = row_leds T b d k"
    using map_store_same [of "start_buffer buf d" 0 "row_leds T b d k"]
    by (simp add: shown_def len)
  then show ?thesis
    using True by (simp add: led_start_def strip_leds_def row_leds_def src)
next
  case False
  let ?W = "nat (bmp_width d)"
  let ?P = "3 * ((N_LEDS - ?W) div 2)"
  let ?L = "row_leds T b d k"
  have src: "strip_source ?W (row_from_bottom d k) = row_from_bottom d k"
    using False row_from_bottom_length [OF conv k]
    by (simp add: strip_source_def kept_columns_def first_column_def min_def)
  have len: "length ?L = 3 * ?W"
    using length_row_leds [OF conv k, of T b] False by (simp add: kept_columns_def min_def)
  have fit: "?P + 3 * ?W \<le> N_LEDS * 3"
    using False by (simp add: N_LEDS_def)
  have zero: "start_buffer buf d i = 0" if "i < N_LEDS * 3" for i
    using False that by (simp add: start_buffer_def memset0_def)
  have "shown (store (start_buffer buf d) ?P ?L)
          = replicate ?P 0 @ ?L @ replicate (3 * (N_LEDS - ?W - (N_LEDS - ?W) div 2)) 0"
  proof (rule nth_equalityI)
    show "length (shown (store (start_buffer buf d) ?P ?L))
            = length (replicate ?P 0 @ ?L @ replicate (3 * (N_LEDS - ?W - (N_LEDS - ?W) div 2)) 0)"
      using False by (simp add: shown_def len N_LEDS_def) linarith
  next
    fix i assume "i < length (shown (store (start_buffer buf d) ?P ?L))"
    then have i: "i < N_LEDS * 3" by (simp add: shown_def)
    have lhs: "shown (store (start_buffer buf d) ?P ?L) ! i = store (start_buffer buf d) ?P ?L i"
      using i by (simp add: shown_def)
    consider "i < ?P" | "?P \<le> i" "i < ?P + 3 * ?W" | "?P + 3 * ?W \<le> i"
      by linarith
    then show "shown (store (start_buffer buf d) ?P ?L) ! i
            = (replicate ?P 0 @ ?L @ replicate (3 * (N_LEDS - ?W - (N_LEDS - ?W) div 2)) 0) ! i"
    proof cases
      case 1
      then show ?thesis
        using zero [OF i] by (simp only: lhs) (simp add: store_def nth_append)
    next
      case 2
      then have "i - ?P < 3 * ?W" by linarith
      with 2 show ?thesis
        by (simp only: lhs) (simp add: store_def nth_append len)
    next
      case 3
      have "i - ?P - 3 * ?W < 3 * (N_LEDS - ?W - (N_LEDS - ?W) div 2)"
        using 3 i False by (simp add: N_LEDS_def) linarith
      moreover have "\<not> i - ?P < 3 * ?W" "\<not> i < ?P"
        using 3 by linarith+
      ultimately show ?thesis
        using 3 zero [OF i] by (simp only: lhs) (simp add: store_def nth_append len)
    qed
  qed
  then show ?thesis
    using False by (simp add: led_start_def strip_leds_def row_leds_def src)
qed

lemma row_sum_append [simp]: "row_sum (xs @ ys) = row_sum xs + row_sum ys"
  by (simp add: row_sum_def)

lemma row_sum_replicate_zero [simp]: "row_sum (replicate n 0) = 0"
  by (simp add: row_sum_def)

lemma row_sum_strip:
  assumes conv: "convertible d" and k: "k < bmp_rows d"
  shows "row_sum (strip_leds T b k (nat (bmp_width d)) (row_from_bottom d k))
           = row_sum (row_leds T b d k)"
proof (cases "N_LEDS \<le> nat (bmp_width d)")
  case True
  then show ?thesis
    by (simp add: strip_leds_def row_leds_def strip_source_def kept_columns_def
        first_column_def min_def)
next
  case False
  then have "strip_source (nat (bmp_width d)) (row_from_bottom d k) = row_from_bottom d k"
    using row_from_bottom_length [OF conv k]
    by (simp add: strip_source_def kept_columns_def first_column_def min_def)
  with False show ?thesis
    by (simp add: strip_leds_def row_leds_def)
qed

lemma row_sum_bound: "row_sum xs \<le> 255 * length xs"
proof (induction xs)
  case Nil
  then show ?case by (simp add: row_sum_def)
next
  case (Cons x xs)
  have "unat x \<le> 255" using unat_u8_less [of x] by simp
  with Cons show ?case by (simp add: row_sum_def)
qed

section \<open>What the conversion writes and returns\<close>

lemma small_fields:
  "length small_top_down = 70"
  "bmp_u16 small_top_down 0 = 0x4D42" "bmp_u16 small_top_down 26 = 1"
  "bmp_u16 small_top_down 28 = 24" "bmp_u32 small_top_down 30 = 0"
  "bmp_u32 small_top_down 10 = 54" "bmp_u32 small_top_down 18 = 2"
  "bmp_u32 small_top_down 22 = 4294967294"
  by (simp_all add: small_top_down_def bmp_u16_def bmp_u32_def)

lemma small_dims:
  "bmp_width small_top_down = 2" "bmp_height small_top_down = - 2"
  "bmp_rows small_top_down = 2" "bmp_stride small_top_down = 8" "bmp_offset small_top_down = 54"
  by (simp_all add: bmp_width_def bmp_height_def bmp_rows_def bmp_stride_def bmp_offset_def
      small_fields i16_def)

lemma small_convertible: "convertible small_top_down"
  by (simp add: convertible_def supported_header_def small_fields small_dims)

lemma scenario_fields:
  "length scenario_image = 45254"
  "bmp_u16 scenario_image 0 = 0x4D42" "bmp_u16 scenario_image 26 = 1"
  "bmp_u16 scenario_image 28 = 24" "bmp_u32 scenario_image 30 = 0"
  "bmp_u32 scenario_image 10 = 54" "bmp_u32 scenario_image 18 = 150"
  "bmp_u32 scenario_image 22 = 100"
  by (simp_all add: scenario_image_def bmp_u16_def bmp_u32_def nth_append)

lemma scenario_dims:
  "bmp_width scenario_image = 150" "bmp_height scenario_image = 100"
  "bmp_rows scenario_image = 100" "bmp_stride scenario_image = 452" "bmp_offset scenario_image = 54"
  by (simp_all add: bmp_width_def bmp_height_def bmp_rows_def bmp_stride_def bmp_offset_def
      scenario_fields i16_def)

lemma scenario_convertible: "convertible scenario_image"
  by (simp add: convertible_def supported_header_def scenario_fields scenario_dims)

lemma small_rows:
  "row_from_bottom small_top_down 0 = [11, 12, 13, 14, 15, 16]"
  "row_from_bottom small_top_down 1 = [1, 2, 3, 4, 5, 6]"
  "row_from_bottom small_top_down (Suc 0) = [1, 2, 3, 4, 5, 6]"
  by (simp_all add: row_from_bottom_def stored_row_def small_dims) (simp_all add: small_top_down_def)

lemma bmpProcess_frame_rows:
  assumes f: "sd_files (card m) inName = Some f" and conv: "convertible (f_data f)"
    and alloc: "sd_alloc (card m) out (word_of_int (512 * bmp_height (f_data f))) = Some fb"
    and wr: "\<forall>k < bmp_rows (f_data f). sd_write_ok (card m) (fb + word_of_nat k)"
  shows "\<exists>b' m'. bmpProcess T inName (Some out) (Some s) m = Inr (b', m') \<and>
      sd_files (card m') out
        = Some \<lparr>f_data = [], f_first = Some fb, f_size = word_of_int (512 * bmp_height (f_data f))\<rparr> \<and>
      firstBlock m' = fb \<and>
      (\<forall>k < bmp_rows (f_data f).
         shown (sd_blocks (card m') (fb + word_of_nat k))
           = strip_leds T (brightness_b s) k (nat (bmp_width (f_data f)))
               (row_from_bottom (f_data f) k))"
proof -
  from bmpProcess_convertible [OF f conv alloc wr, of T s] obtain b' m' where
    run: "bmpProcess T inName (Some out) (Some s) m = Inr (b', m')"
    and fl: "sd_files (card m') out
        = Some \<lparr>f_data = [], f_first = Some fb, f_size = word_of_int (512 * bmp_height (f_data f))\<rparr>"
    and fb: "firstBlock m' = fb"
    and blocks: "\<forall>k < bmp_rows (f_data f).
         sd_blocks (card m') (fb + word_of_nat k)
           = store (start_buffer (sdBuf m) (f_data f)) (led_start (nat (bmp_width (f_data f))))
               (row_leds T (brightness_b s) (f_data f) k)"
    by blast
  have "shown (sd_blocks (card m') (fb + word_of_nat k))
           = strip_leds T (brightness_b s) k (nat (bmp_width (f_data f)))
               (row_from_bottom (f_data f) k)" if "k < bmp_rows (f_data f)" for k
    using blocks that by (simp add: shown_strip [OF conv that])
  with run fl fb show ?thesis by blast
qed


text \<open>
  Claim C8. For a convertible bitmap whose Frame can be stored, the block written for
  row \<open>k\<close> of the Frame (first block plus \<open>k\<close>) holds the LED bytes of the image's
  \<open>k\<close>-th row counted from the bottom, for either storage order: with a positive height
  that is the \<open>k\<close>-th stored row, with a negative height the stored row
  \<open>rows - 1 - k\<close>.
\<close>

theorem rows_bottom_to_top:
  assumes f: "sd_files (card m) inName = Some f" and conv: "convertible (f_data f)"
    and alloc: "sd_alloc (card m) out (word_of_int (512 * bmp_height (f_data f))) = Some fb"
    and wr: "\<forall>k < bmp_rows (f_data f). sd_write_ok (card m) (fb + word_of_nat k)"
  shows "\<exists>b' m'. bmpProcess T inName (Some out) (Some s) m = Inr (b', m') \<and>
      (\<forall>k < bmp_rows (f_data f).
         shown (sd_blocks (card m') (firstBlock m' + word_of_nat k))
           = strip_leds T (brightness_b s) k (nat (bmp_width (f_data f)))
               (row_from_bottom (f_data f) k) \<and>
         (0 < bmp_height (f_data f) \<longrightarrow> row_from_bottom (f_data f) k = stored_row (f_data f) k) \<and>
         (bmp_height (f_data f) < 0 \<longrightarrow>
            row_from_bottom (f_data f) k = stored_row (f_data f) (bmp_rows (f_data f) - 1 - k)))"
proof -
  from bmpProcess_frame_rows [OF f conv alloc wr, of T s] obtain b' m' where
    "bmpProcess T inName (Some out) (Some s) m = Inr (b', m')" "firstBlock m' = fb"
    "\<forall>k < bmp_rows (f_data f).
         shown (sd_blocks (card m') (fb + word_of_nat k))
           = strip_leds T (brightness_b s) k (nat (bmp_width (f_data f)))
               (row_from_bottom (f_data f) k)"
    by blast
  then show ?thesis
    by (auto simp: row_from_bottom_def)
qed

text \<open>
  Claim C6. For a convertible bitmap of width \<open>w\<close> whose Frame can be stored. When
  \<open>w \<ge> N_LEDS\<close> the program starts at column \<open>\<lfloor>(w - N) / 2\<rfloor>\<close> and loads \<open>N_LEDS\<close>
  columns; the columns lost on the right, \<open>w - N - \<lfloor>(w - N) / 2\<rfloor>\<close>, are as many as
  on the left or one more, and each emitted row is the pipeline's output for exactly
  those \<open>N_LEDS\<close> columns. When \<open>w < N_LEDS\<close> the image is loaded at LED
  \<open>\<lfloor>(N - w) / 2\<rfloor>\<close> and each emitted row is that many dark LEDs, the pipeline's output
  for the whole source row, and dark LEDs to the end of the strip.
\<close>

theorem crop_and_centre:
  assumes f: "sd_files (card m) inName = Some f" and conv: "convertible (f_data f)"
    and alloc: "sd_alloc (card m) out (word_of_int (512 * bmp_height (f_data f))) = Some fb"
    and wr: "\<forall>k < bmp_rows (f_data f). sd_write_ok (card m) (fb + word_of_nat k)"
  shows "\<exists>b' m'. bmpProcess T inName (Some out) (Some s) m = Inr (b', m') \<and>
    (N_LEDS \<le> nat (bmp_width (f_data f)) \<longrightarrow>
       crop_geometry (bmp_width (f_data f))
         = (int ((nat (bmp_width (f_data f)) - N_LEDS) div 2), 0, int N_LEDS) \<and>
       (nat (bmp_width (f_data f)) - N_LEDS) div 2
         \<le> nat (bmp_width (f_data f)) - N_LEDS - (nat (bmp_width (f_data f)) - N_LEDS) div 2 \<and>
       nat (bmp_width (f_data f)) - N_LEDS - (nat (bmp_width (f_data f)) - N_LEDS) div 2
         \<le> (nat (bmp_width (f_data f)) - N_LEDS) div 2 + 1 \<and>
       (\<forall>k < bmp_rows (f_data f).
          length (take (3 * N_LEDS) (drop (3 * ((nat (bmp_width (f_data f)) - N_LEDS) div 2))
                    (row_from_bottom (f_data f) k))) = 3 * N_LEDS \<and>
          shown (sd_blocks (card m') (firstBlock m' + word_of_nat k))
            = led_pixels T (brightness_b s) k 0
                (take (3 * N_LEDS) (drop (3 * ((nat (bmp_width (f_data f)) - N_LEDS) div 2))
                   (row_from_bottom (f_data f) k))))) \<and>
    (nat (bmp_width (f_data f)) < N_LEDS \<longrightarrow>
       crop_geometry (bmp_width (f_data f))
         = (0, int (3 * ((N_LEDS - nat (bmp_width (f_data f))) div 2)), bmp_width (f_data f)) \<and>
       (\<forall>k < bmp_rows (f_data f).
          shown (sd_blocks (card m') (firstBlock m' + word_of_nat k))
            = replicate (3 * ((N_LEDS - nat (bmp_width (f_data f))) div 2)) 0
                @ led_pixels T (brightness_b s) k 0 (row_from_bottom (f_data f) k)
                @ replicate (3 * (N_LEDS - nat (bmp_width (f_data f))
                                   - (N_LEDS - nat (bmp_width (f_data f))) div 2)) 0))"
proof -
  let ?d = "f_data f"
  let ?W = "nat (bmp_width ?d)"
  from bmpProcess_frame_rows [OF f conv alloc wr, of T s] obtain b' m' where
    run: "bmpProcess T inName (Some out) (Some s) m = Inr (b', m')" and fb: "firstBlock m' = fb"
    and rows: "\<forall>k < bmp_rows ?d.
         shown (sd_blocks (card m') (fb + word_of_nat k))
           = strip_leds T (brightness_b s) k ?W (row_from_bottom ?d k)"
    by blast
  from conv have w: "0 < bmp_width ?d" "bmp_width ?d \<le> 10921"
    by (simp_all add: convertible_def)
  note geo = crop_geometry_nat [OF w]
  have wide: "length (take (3 * N_LEDS) (drop (3 * ((?W - N_LEDS) div 2)) (row_from_bottom ?d k)))
                = 3 * N_LEDS"
    if "N_LEDS \<le> ?W" "k < bmp_rows ?d" for k
    using that row_from_bottom_length [OF conv that(2)] by (simp add: N_LEDS_def)
  have ar: "x div 2 \<le> x - x div 2 \<and> x - x div 2 \<le> x div 2 + 1" for x :: nat
    by linarith
  have A: "crop_geometry (bmp_width ?d) = (int ((?W - N_LEDS) div 2), 0, int N_LEDS)"
    if "N_LEDS \<le> ?W"
    using that geo by (simp add: first_column_def led_start_def kept_columns_def min_def)
  have B: "shown (sd_blocks (card m') (firstBlock m' + word_of_nat k))
            = led_pixels T (brightness_b s) k 0
                (take (3 * N_LEDS) (drop (3 * ((?W - N_LEDS) div 2)) (row_from_bottom ?d k)))"
    if "N_LEDS \<le> ?W" "k < bmp_rows ?d" for k
    using that rows by (simp add: fb strip_leds_def)
  have C: "crop_geometry (bmp_width ?d) = (0, int (3 * ((N_LEDS - ?W) div 2)), bmp_width ?d)"
    if "?W < N_LEDS"
    using that geo convertible_dims(4) [OF conv]
    by (simp add: first_column_def led_start_def kept_columns_def min_def)
  have D: "shown (sd_blocks (card m') (firstBlock m' + word_of_nat k))
            = replicate (3 * ((N_LEDS - ?W) div 2)) 0
                @ led_pixels T (brightness_b s) k 0 (row_from_bottom ?d k)
                @ replicate (3 * (N_LEDS - ?W - (N_LEDS - ?W) div 2)) 0"
    if "?W < N_LEDS" "k < bmp_rows ?d" for k
    using that rows by (simp add: fb strip_leds_def)
  from run A B C D wide ar [of "?W - N_LEDS"] show ?thesis
    by (intro exI [of _ b'] exI [of _ m']) blast
qed

lemma row_leds_sum_bound:
  assumes "convertible d" and "k < bmp_rows d"
  shows "row_sum (row_leds T b d k) \<le> 110160"
proof -
  have "kept_columns (nat (bmp_width d)) \<le> 144"
    by (simp add: kept_columns_def N_LEDS_def)
  then have "length (row_leds T b d k) \<le> 432"
    using length_row_leds [OF assms, of T b] by simp
  then have "255 * length (row_leds T b d k) \<le> 255 * 432"
    by (intro mult_le_mono2)
  with row_sum_bound [of "row_leds T b d k"] show ?thesis by simp
qed

lemma fold_max_bound: "\<forall>x \<in> set xs. x \<le> (c :: nat) \<Longrightarrow> a \<le> c \<Longrightarrow> fold max xs a \<le> c"
  by (induction xs arbitrary: a) simp_all

lemma unat_line_max:
  assumes conv: "convertible d"
  shows "unat (fold max (map (\<lambda>k. word_of_nat (row_sum (row_leds T b d k)) :: u32)
                         [0..<bmp_rows d]) 0) = max_row_sum T b d"
    and "max_row_sum T b d \<le> 110160"
proof -
  let ?f = "\<lambda>k. row_sum (row_leds T b d k)"
  let ?g = "\<lambda>k. row_sum (strip_leds T b k (nat (bmp_width d)) (row_from_bottom d k))"
  have small: "?f k \<le> 110160" if "k < bmp_rows d" for k
    by (rule row_leds_sum_bound [OF conv that])
  have "map unat (map (\<lambda>k. word_of_nat (?f k) :: u32) [0..<bmp_rows d]) = map ?f [0..<bmp_rows d]"
  proof (simp only: map_map, rule map_cong [OF refl])
    fix k assume "k \<in> set [0..<bmp_rows d]"
    then have "?f k < 2 ^ LENGTH(32)" using small [of k] by simp
    then show "(unat \<circ> (\<lambda>k. word_of_nat (?f k) :: u32)) k = ?f k"
      by (simp only: comp_def unat_of_nat mod_less)
  qed
  then have "unat (fold max (map (\<lambda>k. word_of_nat (?f k) :: u32) [0..<bmp_rows d]) 0)
               = fold max (map ?f [0..<bmp_rows d]) 0"
    by (simp only: unat_fold_max unat_0)
  also have "\<dots> = Max (set (0 # map ?f [0..<bmp_rows d]))"
    by (simp only: Max.set_eq_fold)
  also have "set (0 # map ?f [0..<bmp_rows d]) = insert 0 (?f ` {..<bmp_rows d})"
    by (simp add: atLeast0LessThan)
  also have "?f ` {..<bmp_rows d} = ?g ` {..<bmp_rows d}"
    by (rule image_cong [OF refl]) (simp add: row_sum_strip [OF conv])
  finally show u: "unat (fold max (map (\<lambda>k. word_of_nat (?f k) :: u32) [0..<bmp_rows d]) 0)
                     = max_row_sum T b d"
    by (simp only: max_row_sum_def)
  have "fold max (map ?f [0..<bmp_rows d]) 0 \<le> 110160"
    using small by (intro fold_max_bound) auto
  with u \<open>unat (fold max (map (\<lambda>k. word_of_nat (?f k) :: u32) [0..<bmp_rows d]) 0)
               = fold max (map ?f [0..<bmp_rows d]) 0\<close>
  show "max_row_sum T b d \<le> 110160" by simp
qed

lemma unat_word_of_int_u32:
  "0 \<le> z \<Longrightarrow> z < 4294967296 \<Longrightarrow> unat (word_of_int z :: u32) = nat z"
  by (simp add: unat_eq_nat_uint uint_word_of_int)

lemma estimate_current_nat:
  assumes "unat lm \<le> 110160"
  shows "unat (estimate_current lm) = estimated_current (unat lm)"
    and "estimated_current (unat lm) \<le> 8640"
proof -
  define n where "n = unat lm * 20 div 255"
  define q where "q = \<lfloor>(of_nat n :: rat) / CORRECTION_FACTOR\<rfloor>"
  have a: "unat (lm * 20) = unat lm * 20"
    using assms by (simp add: unat_word_ariths)
  have b: "unat ((lm * 20) div 255) = n"
    by (simp add: unat_div a n_def)
  have n: "n \<le> 8640" using assms by (simp add: n_def)
  have q0: "0 \<le> q" by (simp add: q_def CORRECTION_FACTOR_def)
  have "(of_nat n :: rat) / CORRECTION_FACTOR \<le> of_nat n"
    by (simp add: CORRECTION_FACTOR_def field_simps)
  then have "q \<le> \<lfloor>(of_nat n :: rat)\<rfloor>" unfolding q_def by (rule floor_mono)
  then have q1: "q \<le> int n" by simp
  have e1: "estimate_current lm = word_of_int q"
    by (simp only: estimate_current_def Let_def b q_def)
  have e2: "estimated_current (unat lm) = nat q"
    by (simp only: estimated_current_def q_def n_def)
  have "unat (word_of_int q :: u32) = nat q"
    using q0 q1 n by (intro unat_word_of_int_u32) simp_all
  then show "unat (estimate_current lm) = estimated_current (unat lm)"
    by (simp only: e1 e2)
  show "estimated_current (unat lm) \<le> 8640"
    using q1 n by (simp only: e2)
qed

lemma suggest_brightness_nat:
  assumes "unat e \<le> 8640"
  shows "unat (suggest_brightness s e) = suggested_brightness (unat s) (unat e)"
proof (cases "CURRENT_MAX < unat e")
  case False
  then have "\<not> e > word_of_nat CURRENT_MAX"
    by (simp add: word_less_nat_alt CURRENT_MAX_def)
  with False show ?thesis
    by (simp add: suggest_brightness_def suggested_brightness_def)
next
  case True
  then have gt: "e > word_of_nat CURRENT_MAX"
    by (simp add: word_less_nat_alt CURRENT_MAX_def)
  have s: "unat (ucast s :: u32) = unat s"
    using unat_u8_less [of s] by (simp add: unsigned_ucast_eq take_bit_nat_eq_self)
  have "unat s * 3500 < 2 ^ 32"
    using unat_u8_less [of s] by simp
  then have p: "unat ((ucast s :: u32) * 3500) = unat s * 3500"
    by (simp add: unat_word_ariths s)
  have d: "unat (((ucast s :: u32) * 3500) div e) = unat s * 3500 div unat e"
    by (simp add: unat_div p)
  have "unat s * 3500 div unat e \<le> unat s * 3500 div 3500"
    using True by (intro div_le_mono2) (simp_all add: CURRENT_MAX_def)
  then have "unat s * 3500 div unat e < 256"
    using unat_u8_less [of s] by simp
  then have "unat (ucast (((ucast s :: u32) * 3500) div e) :: u8) = unat s * 3500 div unat e"
    by (simp only: unsigned_ucast_eq d) (simp add: take_bit_nat_eq_self)
  with True gt show ?thesis
    by (simp add: suggest_brightness_def suggested_brightness_def CURRENT_MAX_def)
qed

text \<open>
  Claim C5. For a convertible bitmap whose Frame can be stored, converted with
  brightness \<open>s\<close>: with \<open>maxRowSum\<close> the largest sum of the corrected channel bytes of a
  row, the estimate is \<open>maxRowSum\<close> times 20 over 255, divided by the correction factor
  (both quotients cut to whole numbers), and the brightness returned is \<open>s\<close> times the
  budget over the estimate when the estimate exceeds the budget, and \<open>s\<close> otherwise.
\<close>

theorem brightness_suggestion:
  assumes f: "sd_files (card m) inName = Some f" and conv: "convertible (f_data f)"
    and alloc: "sd_alloc (card m) out (word_of_int (512 * bmp_height (f_data f))) = Some fb"
    and wr: "\<forall>k < bmp_rows (f_data f). sd_write_ok (card m) (fb + word_of_nat k)"
  shows "\<exists>b' m'. bmpProcess T inName (Some out) (Some s) m = Inr (Some b', m') \<and>
           unat b' = suggested_brightness (unat s)
                       (estimated_current (max_row_sum T (brightness_b s) (f_data f)))"
proof -
  let ?lm = "fold max (map (\<lambda>k. word_of_nat (row_sum (row_leds T (brightness_b s) (f_data f) k)) :: u32)
                         [0..<bmp_rows (f_data f)]) 0"
  from bmpProcess_convertible [OF f conv alloc wr, of T s] obtain m' where
    run: "bmpProcess T inName (Some out) (Some s) m
            = Inr (Some (suggest_brightness s (estimate_current ?lm)), m')"
    by blast
  note lm = unat_line_max [OF conv, of T "brightness_b s"]
  have small: "unat ?lm \<le> 110160" using lm by simp
  note est = estimate_current_nat [OF small]
  have "unat (estimate_current ?lm) \<le> 8640" using est by simp
  from suggest_brightness_nat [OF this, of s]
  have "unat (suggest_brightness s (estimate_current ?lm))
          = suggested_brightness (unat s) (estimated_current (max_row_sum T (brightness_b s) (f_data f)))"
    by (simp only: est(1) lm(1))
  with run show ?thesis by blast
qed

lemma image_card_facts:
  "sd_files (card (boot_machine (image_card d))) ''a.bmp''
     = Some \<lparr>f_data = d, f_first = None, f_size = 0\<rparr>"
  "sd_alloc (card (boot_machine (image_card d))) out sz = Some 100"
  "sd_write_ok (card (boot_machine (image_card d))) k"
  "card (boot_machine (image_card d)) = image_card d"
  by (simp_all add: boot_machine_def image_card_def blank_card_def)

theorem rows_bottom_to_top_witness:
  "convertible small_top_down \<and> bmp_height small_top_down = - 2 \<and>
   stored_row small_top_down 0 = [1, 2, 3, 4, 5, 6] \<and>
   stored_row small_top_down 1 = [11, 12, 13, 14, 15, 16] \<and>
   (\<exists>b' m'. bmpProcess plain_tables ''a.bmp'' (Some ''a.raw'') (Some 255)
               (boot_machine (image_card small_top_down)) = Inr (b', m') \<and>
      shown (sd_blocks (card m') (firstBlock m' + word_of_nat 0))
        = strip_leds plain_tables (brightness_b 255) 0 2 [11, 12, 13, 14, 15, 16] \<and>
      shown (sd_blocks (card m') (firstBlock m' + word_of_nat 1))
        = strip_leds plain_tables (brightness_b 255) 1 2 [1, 2, 3, 4, 5, 6])"
proof -
  let ?m = "boot_machine (image_card small_top_down)"
  let ?f = "\<lparr>f_data = small_top_down, f_first = None, f_size = 0\<rparr>"
  have f: "sd_files (card ?m) ''a.bmp'' = Some ?f" by (rule image_card_facts)
  have conv: "convertible (f_data ?f)" by (simp add: small_convertible)
  have alloc: "sd_alloc (card ?m) ''a.raw'' (word_of_int (512 * bmp_height (f_data ?f))) = Some 100"
    by (rule image_card_facts)
  have wr: "\<forall>k < bmp_rows (f_data ?f). sd_write_ok (card ?m) (100 + word_of_nat k)"
    by (simp add: image_card_facts(3))
  have st: "stored_row small_top_down 0 = [1, 2, 3, 4, 5, 6]"
      "stored_row small_top_down 1 = [11, 12, 13, 14, 15, 16]"
    by (simp_all add: stored_row_def small_dims) (simp_all add: small_top_down_def)
  from rows_bottom_to_top [OF f conv alloc wr, of plain_tables 255] obtain b' m' where
    run: "bmpProcess plain_tables ''a.bmp'' (Some ''a.raw'') (Some 255) ?m = Inr (b', m')"
    and rows: "\<forall>k < bmp_rows small_top_down.
         shown (sd_blocks (card m') (firstBlock m' + word_of_nat k))
           = strip_leds plain_tables (brightness_b 255) k (nat (bmp_width small_top_down))
               (row_from_bottom small_top_down k)"
    by auto
  from rows [rule_format, of 0] rows [rule_format, of 1]
  have "shown (sd_blocks (card m') (firstBlock m' + word_of_nat 0))
        = strip_leds plain_tables (brightness_b 255) 0 2 [11, 12, 13, 14, 15, 16]"
    and "shown (sd_blocks (card m') (firstBlock m' + word_of_nat 1))
        = strip_leds plain_tables (brightness_b 255) 1 2 [1, 2, 3, 4, 5, 6]"
    by (simp_all add: small_dims small_rows)
  with run small_convertible small_dims(2) st show ?thesis by blast
qed

theorem crop_and_centre_witness:
  "convertible scenario_image \<and> bmp_width scenario_image = 150 \<and>
   crop_geometry 150 = (3, 0, 144) \<and>
   (\<exists>b' m'. bmpProcess plain_tables ''a.bmp'' (Some ''a.raw'') (Some 200)
               (boot_machine (image_card scenario_image)) = Inr (b', m') \<and>
      shown (sd_blocks (card m') (firstBlock m' + word_of_nat 0))
        = led_pixels plain_tables (brightness_b 200) 0 0
            (take 432 (drop 9 (row_from_bottom scenario_image 0)))) \<and>
   convertible small_top_down \<and> bmp_width small_top_down = 2 \<and>
   crop_geometry 2 = (0, 213, 2) \<and>
   (\<exists>b' m'. bmpProcess plain_tables ''a.bmp'' (Some ''a.raw'') (Some 200)
               (boot_machine (image_card small_top_down)) = Inr (b', m') \<and>
      shown (sd_blocks (card m') (firstBlock m' + word_of_nat 0))
        = replicate 213 0 @ led_pixels plain_tables (brightness_b 200) 0 0 [11, 12, 13, 14, 15, 16]
            @ replicate 213 0)"
proof -
  let ?m = "boot_machine (image_card scenario_image)"
  let ?f = "\<lparr>f_data = scenario_image, f_first = None, f_size = 0\<rparr>"
  have f: "sd_files (card ?m) ''a.bmp'' = Some ?f" by (rule image_card_facts)
  have conv: "convertible (f_data ?f)" by (simp add: scenario_convertible)
  have alloc: "sd_alloc (card ?m) ''a.raw'' (word_of_int (512 * bmp_height (f_data ?f))) = Some 100"
    by (rule image_card_facts)
  have wr: "\<forall>k < bmp_rows (f_data ?f). sd_write_ok (card ?m) (100 + word_of_nat k)"
    by (simp add: image_card_facts(3))
  from crop_and_centre [OF f conv alloc wr, of plain_tables 200] obtain b' m' where
    run: "bmpProcess plain_tables ''a.bmp'' (Some ''a.raw'') (Some 200) ?m = Inr (b', m')"
    and geo: "crop_geometry 150 = (3, 0, 144)"
    and rows: "\<forall>k < 100. shown (sd_blocks (card m') (firstBlock m' + word_of_nat k))
            = led_pixels plain_tables (brightness_b 200) k 0
                (take 432 (drop 9 (row_from_bottom scenario_image k)))"
    by (auto simp: scenario_dims N_LEDS_def)
  from rows [rule_format, of 0] run geo
  have wide: "crop_geometry 150 = (3, 0, 144) \<and>
    (\<exists>b' m'. bmpProcess plain_tables ''a.bmp'' (Some ''a.raw'') (Some 200) ?m = Inr (b', m') \<and>
      shown (sd_blocks (card m') (firstBlock m' + word_of_nat 0))
        = led_pixels plain_tables (brightness_b 200) 0 0
            (take 432 (drop 9 (row_from_bottom scenario_image 0))))"
    by auto
  let ?m2 = "boot_machine (image_card small_top_down)"
  let ?f2 = "\<lparr>f_data = small_top_down, f_first = None, f_size = 0\<rparr>"
  have f2: "sd_files (card ?m2) ''a.bmp'' = Some ?f2" by (rule image_card_facts)
  have conv2: "convertible (f_data ?f2)" by (simp add: small_convertible)
  have alloc2: "sd_alloc (card ?m2) ''a.raw'' (word_of_int (512 * bmp_height (f_data ?f2))) = Some 100"
    by (rule image_card_facts)
  have wr2: "\<forall>k < bmp_rows (f_data ?f2). sd_write_ok (card ?m2) (100 + word_of_nat k)"
    by (simp add: image_card_facts(3))
  from crop_and_centre [OF f2 conv2 alloc2 wr2, of plain_tables 200] obtain b2 m2 where
    run2: "bmpProcess plain_tables ''a.bmp'' (Some ''a.raw'') (Some 200) ?m2 = Inr (b2, m2)"
    and geo2: "crop_geometry 2 = (0, 213, 2)"
    and rows2: "\<forall>k < 2. shown (sd_blocks (card m2) (firstBlock m2 + word_of_nat k))
            = replicate 213 0 @ led_pixels plain_tables (brightness_b 200) k 0
                (row_from_bottom small_top_down k) @ replicate 213 0"
    by (auto simp: small_dims N_LEDS_def)
  from rows2 [rule_format, of 0] run2 geo2
  have narrow: "crop_geometry 2 = (0, 213, 2) \<and>
    (\<exists>b' m'. bmpProcess plain_tables ''a.bmp'' (Some ''a.raw'') (Some 200) ?m2 = Inr (b', m') \<and>
      shown (sd_blocks (card m') (firstBlock m' + word_of_nat 0))
        = replicate 213 0 @ led_pixels plain_tables (brightness_b 200) 0 0 [11, 12, 13, 14, 15, 16]
            @ replicate 213 0)"
    by (auto simp: small_rows)
  from wide narrow scenario_convertible small_convertible scenario_dims(1) small_dims(1)
  show ?thesis by blast
qed

lemma small_max_row_sum: "max_row_sum plain_tables (brightness_b 255) small_top_down = 81"
proof -
  have "{..<2 :: nat} = {0, Suc 0}" by auto
  moreover have "row_sum (strip_leds plain_tables (brightness_b 255) k 2 [a, b, c, d, e, g])
          = unat a + unat b + unat c + unat d + unat e + unat g" for k a b c d e g
    by (simp add: strip_leds_def N_LEDS_def plain_tables_def correct_def brightness_b_def
        scale_channel_def Let_def) (simp add: row_sum_def)
  ultimately show ?thesis
    by (simp add: max_row_sum_def small_dims small_rows)
qed

lemma estimated_current_integer:
  "estimated_current maxRowSum = maxRowSum * 20 div 255 * 5 div 7"
proof -
  let ?n = "maxRowSum * 20 div 255"
  have "(of_nat ?n :: rat) / CORRECTION_FACTOR = of_nat (?n * 5) / of_nat 7"
    by (simp add: CORRECTION_FACTOR_def)
  then have "\<lfloor>(of_nat ?n :: rat) / CORRECTION_FACTOR\<rfloor> = int (?n * 5 div 7)"
    by (simp only: floor_divide_of_nat_eq)
  then show ?thesis
    by (simp add: estimated_current_def)
qed

lemma estimated_current_81: "estimated_current 81 = 4"
  by (simp add: estimated_current_integer)

theorem brightness_suggestion_witness:
  "convertible small_top_down \<and>
   max_row_sum plain_tables (brightness_b 255) small_top_down = 81 \<and>
   estimated_current 81 = 4 \<and>
   (\<exists>b' m'. bmpProcess plain_tables ''a.bmp'' (Some ''a.raw'') (Some 255)
               (boot_machine (image_card small_top_down)) = Inr (Some b', m') \<and>
            unat b' = 255)"
proof -
  let ?m = "boot_machine (image_card small_top_down)"
  let ?f = "\<lparr>f_data = small_top_down, f_first = None, f_size = 0\<rparr>"
  have f: "sd_files (card ?m) ''a.bmp'' = Some ?f" by (rule image_card_facts)
  have conv: "convertible (f_data ?f)" by (simp add: small_convertible)
  have alloc: "sd_alloc (card ?m) ''a.raw'' (word_of_int (512 * bmp_height (f_data ?f))) = Some 100"
    by (rule image_card_facts)
  have wr: "\<forall>k < bmp_rows (f_data ?f). sd_write_ok (card ?m) (100 + word_of_nat k)"
    by (simp add: image_card_facts(3))
  from brightness_suggestion [OF f conv alloc wr, of plain_tables 255]
  have "\<exists>b' m'. bmpProcess plain_tables ''a.bmp'' (Some ''a.raw'') (Some 255) ?m = Inr (Some b', m') \<and>
            unat b' = 255"
    by (simp add: small_max_row_sum estimated_current_81 suggested_brightness_def CURRENT_MAX_def)
  with small_convertible small_max_row_sum estimated_current_81 show ?thesis by blast
qed



end
